theory Spec2Isabelle
  imports Complex_Main
begin

section \<open>The non-stationary 10-armed bandit experiment of test1.cpp\<close>

text \<open>
  The program compares a sample-average agent and a constant-step-size agent on a
  bandit whose true action values perform a random walk. Values of the C++ type
  \<open>double\<close> are modelled as real numbers, as the specification's data model has them
  (real-valued means, estimates and rewards), and the functions of the program are
  first given with exact arithmetic. Where a property depends on the rounding of
  \<open>double\<close> arithmetic, the statements of the program concerned are given a second
  time with the result of every operation rounded to double precision; these
  definitions carry the suffix \<open>_b64\<close>. Values of type \<open>int\<close> are integers; the one
  place where the program does arithmetic on an \<open>int\<close> that grows (the visitation
  counts) has its overflow written out as an error. Unchecked \<open>vector::operator[]\<close>
  accesses with an index out of range are errors as well.
\<close>

type_synonym double = real

datatype error = OutOfRange | SignedOverflow | DivisionByZero

definition bindE :: "error + 'a \<Rightarrow> ('a \<Rightarrow> error + 'b) \<Rightarrow> error + 'b" where
  "bindE m f = (case m of Inl e \<Rightarrow> Inl e | Inr x \<Rightarrow> f x)"

subsection \<open>The random source\<close>

text \<open>
  Modelled from the spec: the process-wide generator \<open>gen\<close> (a \<open>std::mt19937\<close>) and the
  three standard distributions drawn from it belong to the C++ standard library,
  not to the sources. The generator is a tape of raw variates with a cursor; every
  draw of a distribution reads the variate under the cursor, moves the cursor by one
  and appends the kind of the draw to the record of draws. A normal distribution
  reads the variate as a standard normal deviate \<open>z\<close> and returns \<open>mean + stddev * z\<close>.
  A Bernoulli distribution with parameter \<open>p\<close> reads the fractional part \<open>u\<close> of the
  variate, a number in \<open>[0, 1)\<close>, and returns \<open>u < p\<close>, so that it is true with
  probability \<open>p\<close> for a uniform \<open>u\<close>. A uniform integer distribution on \<open>[a, b]\<close>
  returns \<open>a + floor (u * (b - a + 1))\<close>.
\<close>

datatype draw = NormalDraw double double | BernoulliDraw double | UniformIntDraw int int

record rng =
  tape :: "nat \<Rightarrow> real"
  cursor :: nat
  drawn :: "draw list"

definition consume :: "draw \<Rightarrow> rng \<Rightarrow> rng" where
  "consume d g = g\<lparr>cursor := Suc (cursor g), drawn := drawn g @ [d]\<rparr>"

definition variate :: "rng \<Rightarrow> real" where
  "variate g = tape g (cursor g)"

datatype normal_distribution = normal_distribution (mean: double) (stddev: double)

definition sample_normal :: "normal_distribution \<Rightarrow> rng \<Rightarrow> double \<times> rng" where
  "sample_normal d g =
     (mean d + stddev d * variate g, consume (NormalDraw (mean d) (stddev d)) g)"

definition sample_bernoulli :: "double \<Rightarrow> rng \<Rightarrow> bool \<times> rng" where
  "sample_bernoulli p g = (frac (variate g) < p, consume (BernoulliDraw p) g)"

definition sample_uniform_int :: "int \<Rightarrow> int \<Rightarrow> rng \<Rightarrow> int \<times> rng" where
  "sample_uniform_int a b g =
     (a + \<lfloor>frac (variate g) * of_int (b - a + 1)\<rfloor>, consume (UniformIntDraw a b) g)"

subsection \<open>The index of the largest element\<close>

text \<open>
  Modelled from the spec: \<open>std::max_element\<close> followed by \<open>std::distance\<close> from the
  beginning, both of the C++ standard library. The scan goes from left to right and
  moves to a later element only when it is strictly larger than the largest one so
  far, so the first largest element wins; on an empty range the end iterator is
  returned, at distance 0.
\<close>

fun max_scan :: "double \<Rightarrow> nat \<Rightarrow> nat \<Rightarrow> double list \<Rightarrow> nat" where
  "max_scan largest li i [] = li"
| "max_scan largest li i (x # xs) =
     (if largest < x then max_scan x i (Suc i) xs else max_scan largest li (Suc i) xs)"

definition max_element_index :: "double list \<Rightarrow> nat" where
  "max_element_index xs = (case xs of [] \<Rightarrow> 0 | x # rest \<Rightarrow> max_scan x 0 1 rest)"

subsection \<open>class Bandit\<close>

record bandit =
  q_true :: "double list"
  reward_noise :: normal_distribution
  walk_noise :: normal_distribution

definition Bandit :: bandit where
  "Bandit = \<lparr>q_true = replicate 10 0,
             reward_noise = normal_distribution 0 1,
             walk_noise = normal_distribution 0 (1 / 100)\<rparr>"

fun walk :: "normal_distribution \<Rightarrow> double list \<Rightarrow> rng \<Rightarrow> double list \<times> rng" where
  "walk d [] g = ([], g)"
| "walk d (q # qs) g =
     (case sample_normal d g of (n, g1) \<Rightarrow>
        (case walk d qs g1 of (qs', g2) \<Rightarrow> ((q + n) # qs', g2)))"

definition random_walk :: "bandit \<Rightarrow> rng \<Rightarrow> bandit \<times> rng" where
  "random_walk b g =
     (case walk (walk_noise b) (q_true b) g of (qs, g') \<Rightarrow> (b\<lparr>q_true := qs\<rparr>, g'))"

definition in_range :: "int \<Rightarrow> 'a list \<Rightarrow> bool" where
  "in_range i xs = (0 \<le> i \<and> i < int (length xs))"

definition get_reward :: "bandit \<Rightarrow> int \<Rightarrow> rng \<Rightarrow> error + (double \<times> rng)" where
  "get_reward b action g =
     (if in_range action (q_true b)
      then (case sample_normal (reward_noise b) g of (n, g') \<Rightarrow>
              Inr (q_true b ! nat action + n, g'))
      else Inl OutOfRange)"

definition optimal_action :: "bandit \<Rightarrow> int" where
  "optimal_action b = int (max_element_index (q_true b))"

definition bandit_reset :: "bandit \<Rightarrow> bandit" where
  "bandit_reset b = b\<lparr>q_true := replicate (length (q_true b)) 0\<rparr>"

subsection \<open>class Agent and its two subclasses\<close>

record agent =
  Q :: "double list"
  epsilon :: double
  bern :: double

record sa_agent = agent +
  counts :: "int list"

record css_agent = agent +
  alpha :: double

definition Agent :: "double \<Rightarrow> agent" where
  "Agent eps = \<lparr>Q = replicate 10 0, epsilon = eps, bern = 1 - eps\<rparr>"

definition choose_action :: "'a agent_scheme \<Rightarrow> rng \<Rightarrow> int \<times> rng" where
  "choose_action a g =
     (case sample_bernoulli (bern a) g of (b, g1) \<Rightarrow>
        if b then sample_uniform_int 0 9 g1
        else (int (max_element_index (Q a)), g1))"

definition agent_reset :: "'a agent_scheme \<Rightarrow> 'a agent_scheme" where
  "agent_reset a = a\<lparr>Q := replicate (length (Q a)) 0\<rparr>"

definition SampleAverageAgent :: "double \<Rightarrow> sa_agent" where
  "SampleAverageAgent eps =
     \<lparr>Q = replicate 10 0, epsilon = eps, bern = 1 - eps, counts = replicate 10 0\<rparr>"

definition INT_MAX :: int where
  "INT_MAX = 2147483647"

text \<open>The two statements of \<open>SampleAverageAgent::update\<close>, one after the other.\<close>

definition sa_count :: "sa_agent \<Rightarrow> int \<Rightarrow> error + sa_agent" where
  "sa_count a action =
     (if \<not> in_range action (counts a) then Inl OutOfRange
      else if counts a ! nat action = INT_MAX then Inl SignedOverflow
      else Inr (a\<lparr>counts := (counts a)[nat action := counts a ! nat action + 1]\<rparr>))"

definition sa_estimate :: "sa_agent \<Rightarrow> int \<Rightarrow> double \<Rightarrow> error + sa_agent" where
  "sa_estimate a action reward =
     (if in_range action (Q a) \<and> in_range action (counts a)
      then Inr (a\<lparr>Q := (Q a)[nat action :=
                  Q a ! nat action
                    + (reward - Q a ! nat action) / of_int (counts a ! nat action)]\<rparr>)
      else Inl OutOfRange)"

definition sa_update :: "sa_agent \<Rightarrow> int \<Rightarrow> double \<Rightarrow> error + sa_agent" where
  "sa_update a action reward =
     bindE (sa_count a action) (\<lambda>a'. sa_estimate a' action reward)"

definition sa_reset :: "sa_agent \<Rightarrow> sa_agent" where
  "sa_reset a = (agent_reset a)\<lparr>counts := replicate (length (counts a)) 0\<rparr>"

definition ConstantStepSizeAgent :: "double \<Rightarrow> double \<Rightarrow> css_agent" where
  "ConstantStepSizeAgent eps a =
     \<lparr>Q = replicate 10 0, epsilon = eps, bern = 1 - eps, alpha = a\<rparr>"

definition css_update :: "css_agent \<Rightarrow> int \<Rightarrow> double \<Rightarrow> error + css_agent" where
  "css_update a action reward =
     (if in_range action (Q a)
      then Inr (a\<lparr>Q := (Q a)[nat action :=
                  Q a ! nat action + alpha a * (reward - Q a ! nat action)]\<rparr>)
      else Inl OutOfRange)"

subsection \<open>run_exp\<close>

text \<open>
  The local variables of \<open>run_exp\<close> and the generator, as one state. The constants
  \<open>num_runs\<close> and \<open>num_steps\<close> are parameters of the loops, so that the loops can be
  evaluated on small numbers; \<open>run_exp\<close> itself fixes them to 2000 and 10000.
\<close>

record sim =
  bandit :: bandit
  sa_agent :: sa_agent
  css_agent :: css_agent
  gen :: rng
  sa_rewards :: "double list"
  css_rewards :: "double list"
  sa_optimal :: "double list"
  css_optimal :: "double list"

definition add_at :: "double list \<Rightarrow> nat \<Rightarrow> double \<Rightarrow> error + double list" where
  "add_at xs i v = (if i < length xs then Inr (xs[i := xs ! i + v]) else Inl OutOfRange)"

definition of_bool_double :: "bool \<Rightarrow> double" where
  "of_bool_double b = (if b then 1 else 0)"

text \<open>The body of the inner loop, lines 122 to 135, statement by statement.\<close>

definition step_body :: "nat \<Rightarrow> sim \<Rightarrow> error + sim" where
  "step_body step s =
     (case random_walk (bandit s) (gen s) of (b, g0) \<Rightarrow>
      (case choose_action (sa_agent s) g0 of (sa_action, g1) \<Rightarrow>
       bindE (get_reward b sa_action g1) (\<lambda>(sa_reward, g2).
       bindE (sa_update (sa_agent s) sa_action sa_reward) (\<lambda>sa'.
       bindE (add_at (sa_rewards s) step sa_reward) (\<lambda>sa_rewards'.
       bindE (add_at (sa_optimal s) step
                (of_bool_double (sa_action = optimal_action b))) (\<lambda>sa_optimal'.
       (case choose_action (css_agent s) g2 of (css_action, g3) \<Rightarrow>
        bindE (get_reward b css_action g3) (\<lambda>(css_reward, g4).
        bindE (css_update (css_agent s) css_action css_reward) (\<lambda>css'.
        bindE (add_at (css_rewards s) step css_reward) (\<lambda>css_rewards'.
        bindE (add_at (css_optimal s) step
                 (of_bool_double (css_action = optimal_action b))) (\<lambda>css_optimal'.
        Inr \<lparr>bandit = b, sa_agent = sa', css_agent = css', gen = g4,
             sa_rewards = sa_rewards', css_rewards = css_rewards',
             sa_optimal = sa_optimal', css_optimal = css_optimal'\<rparr>)))))))))))"

function steps_loop :: "nat \<Rightarrow> nat \<Rightarrow> sim \<Rightarrow> error + sim" where
  "steps_loop num_steps step s =
     (if step < num_steps
      then (case step_body step s of
              Inl e \<Rightarrow> Inl e
            | Inr s' \<Rightarrow> steps_loop num_steps (Suc step) s')
      else Inr s)"
  by pat_completeness auto
termination
  by (relation "measure (\<lambda>(num_steps, step, s). num_steps - step)") auto

declare steps_loop.simps [simp del]

text \<open>The body of the outer loop, lines 117 to 137.\<close>

definition run_body :: "nat \<Rightarrow> sim \<Rightarrow> error + sim" where
  "run_body num_steps s =
     steps_loop num_steps 0
       (s\<lparr>bandit := bandit_reset (bandit s),
          sa_agent := sa_reset (sa_agent s),
          css_agent := agent_reset (css_agent s)\<rparr>)"

function runs_loop :: "nat \<Rightarrow> nat \<Rightarrow> nat \<Rightarrow> sim \<Rightarrow> error + sim" where
  "runs_loop num_runs num_steps run s =
     (if run < num_runs
      then (case run_body num_steps s of
              Inl e \<Rightarrow> Inl e
            | Inr s' \<Rightarrow> runs_loop num_runs num_steps (Suc run) s')
      else Inr s)"
  by pat_completeness auto
termination
  by (relation "measure (\<lambda>(num_runs, num_steps, run, s). num_runs - run)") auto

declare runs_loop.simps [simp del]

definition init_sim :: "nat \<Rightarrow> rng \<Rightarrow> sim" where
  "init_sim num_steps g =
     \<lparr>bandit = Bandit,
      sa_agent = SampleAverageAgent (1 / 10),
      css_agent = ConstantStepSizeAgent (1 / 10) (1 / 10),
      gen = g,
      sa_rewards = replicate num_steps 0,
      css_rewards = replicate num_steps 0,
      sa_optimal = replicate num_steps 0,
      css_optimal = replicate num_steps 0\<rparr>"

text \<open>The four \<open>transform\<close> calls, lines 140 to 143.\<close>

definition normalise :: "nat \<Rightarrow> sim \<Rightarrow> sim" where
  "normalise num_runs s =
     s\<lparr>sa_rewards := map (\<lambda>d. d / of_nat num_runs) (sa_rewards s),
       css_rewards := map (\<lambda>d. d / of_nat num_runs) (css_rewards s),
       sa_optimal := map (\<lambda>d. d / of_nat num_runs * 100) (sa_optimal s),
       css_optimal := map (\<lambda>d. d / of_nat num_runs * 100) (css_optimal s)\<rparr>"

text \<open>
  The two output tables: one row \<open>(i, SampleAverage, ConstantStepSize)\<close> for every
  step, as the last loop writes them to \<open>rewards.csv\<close> and \<open>optimal.csv\<close>.
\<close>

record tables =
  reward_file :: "(nat \<times> double \<times> double) list"
  optimal_file :: "(nat \<times> double \<times> double) list"

definition write_tables :: "nat \<Rightarrow> sim \<Rightarrow> tables" where
  "write_tables num_steps s =
     \<lparr>reward_file = map (\<lambda>i. (i, sa_rewards s ! i, css_rewards s ! i)) [0..<num_steps],
      optimal_file = map (\<lambda>i. (i, sa_optimal s ! i, css_optimal s ! i)) [0..<num_steps]\<rparr>"

definition run_exp_with :: "nat \<Rightarrow> nat \<Rightarrow> rng \<Rightarrow> error + (tables \<times> rng)" where
  "run_exp_with num_runs num_steps g =
     bindE (runs_loop num_runs num_steps 0 (init_sim num_steps g))
       (\<lambda>s. Inr (write_tables num_steps (normalise num_runs s), gen s))"

definition run_exp :: "rng \<Rightarrow> error + (tables \<times> rng)" where
  "run_exp g = run_exp_with 2000 10000 g"

subsection \<open>Double-precision arithmetic\<close>

text \<open>
  Modelled from the spec: the arithmetic of the type \<open>double\<close> belongs to the C++
  implementation, not to the sources. It is that of IEEE 754 binary64 with rounding
  to nearest, ties to even: the result of an operation is the exact result rounded
  to 53 significant bits. \<open>binade y\<close> is the exponent \<open>e\<close> with \<open>2^e \<le> y < 2^(e+1)\<close> of a
  positive \<open>y\<close>, and \<open>round_double x\<close> is the multiple of \<open>2^(e-52)\<close> nearest to \<open>x\<close>,
  the even one of two nearest. The range of the exponent is not modelled (no
  overflow to infinity, no subnormal numbers). The conversion of an \<open>int\<close> to
  \<open>double\<close> is exact.
\<close>

definition pow2 :: "int \<Rightarrow> real" where
  "pow2 e = (if 0 \<le> e then 2 ^ nat e else 1 / 2 ^ nat (- e))"

function bit_length :: "int \<Rightarrow> int" where
  "bit_length n = (if n \<le> 0 then 0 else 1 + bit_length (n div 2))"
  by pat_completeness auto
termination
  by (relation "measure nat") auto

declare bit_length.simps [simp del]

definition binade :: "real \<Rightarrow> int" where
  "binade y =
     (if 1 \<le> y then bit_length \<lfloor>y\<rfloor> - 1
      else (let b = bit_length \<lfloor>1 / y\<rfloor> - 1
            in if y * pow2 b = 1 then - b else - b - 1))"

definition round_half_even :: "real \<Rightarrow> int" where
  "round_half_even m =
     (let f = \<lfloor>m\<rfloor>; d = m - of_int f
      in if d < 1 / 2 then f else if 1 / 2 < d then f + 1 else if even f then f else f + 1)"

definition round_double :: "real \<Rightarrow> double" where
  "round_double x =
     (if x = 0 then 0
      else (let u = pow2 (binade \<bar>x\<bar> - 52) in of_int (round_half_even (x / u)) * u))"

text \<open>
  The second statement of \<open>SampleAverageAgent::update\<close>, line 82, with the rounding of
  its subtraction, its division and its addition, the whole \<open>update\<close>, and a sequence
  of \<open>update\<close> calls. A division by a count of zero, whose result in the program is
  an infinity or a NaN and not a number, is an error.
\<close>

definition sa_estimate_b64 :: "sa_agent \<Rightarrow> int \<Rightarrow> double \<Rightarrow> error + sa_agent" where
  "sa_estimate_b64 a action reward =
     (if \<not> (in_range action (Q a) \<and> in_range action (counts a)) then Inl OutOfRange
      else if counts a ! nat action = 0 then Inl DivisionByZero
      else Inr (a\<lparr>Q := (Q a)[nat action :=
                  round_double (Q a ! nat action
                    + round_double (round_double (reward - Q a ! nat action)
                        / of_int (counts a ! nat action)))]\<rparr>))"

definition sa_update_b64 :: "sa_agent \<Rightarrow> int \<Rightarrow> double \<Rightarrow> error + sa_agent" where
  "sa_update_b64 a action reward =
     bindE (sa_count a action) (\<lambda>a'. sa_estimate_b64 a' action reward)"

fun sa_updates_b64 :: "sa_agent \<Rightarrow> (int \<times> double) list \<Rightarrow> error + sa_agent" where
  "sa_updates_b64 a [] = Inr a"
| "sa_updates_b64 a ((action, reward) # us) =
     bindE (sa_update_b64 a action reward) (\<lambda>a'. sa_updates_b64 a' us)"




subsection \<open>Sequences of calls\<close>

text \<open>
  The rewards that a sequence of \<open>update\<close> calls gives to one action, and the states
  a sample-average agent can be in: as constructed, after an \<open>update\<close> that did not
  fail, after a \<open>reset\<close>.
\<close>

definition rewards_of :: "int \<Rightarrow> (int \<times> double) list \<Rightarrow> double list" where
  "rewards_of action us = map snd (filter (\<lambda>u. fst u = action) us)"

inductive sa_reachable :: "sa_agent \<Rightarrow> bool" where
  sa_constructed: "sa_reachable (SampleAverageAgent eps)"
| sa_updated: "sa_reachable a \<Longrightarrow> sa_update a action reward = Inr a' \<Longrightarrow> sa_reachable a'"
| sa_was_reset: "sa_reachable a \<Longrightarrow> sa_reachable (sa_reset a)"

subsection \<open>The states of \<open>run_exp\<close>\<close>

text \<open>
  What the constructors establish and every statement of the two loops keeps: the
  vectors of the bandit and of the agents have 10 elements, the distributions have
  the parameters given at construction, and the four accumulators have \<open>num_steps\<close>
  elements. Within a repetition, no count exceeds the number of steps taken. Two
  states have the same lengths when their accumulators have.
\<close>

definition sim_ok :: "nat \<Rightarrow> sim \<Rightarrow> bool" where
  "sim_ok num_steps s \<longleftrightarrow>
     length (q_true (bandit s)) = 10
   \<and> reward_noise (bandit s) = normal_distribution 0 1
   \<and> walk_noise (bandit s) = normal_distribution 0 (1 / 100)
   \<and> length (Q (sa_agent s)) = 10 \<and> length (counts (sa_agent s)) = 10
   \<and> bern (sa_agent s) = 9 / 10
   \<and> length (Q (css_agent s)) = 10
   \<and> bern (css_agent s) = 9 / 10 \<and> alpha (css_agent s) = 1 / 10
   \<and> length (sa_rewards s) = num_steps \<and> length (css_rewards s) = num_steps
   \<and> length (sa_optimal s) = num_steps \<and> length (css_optimal s) = num_steps"

definition counts_at_most :: "int \<Rightarrow> sim \<Rightarrow> bool" where
  "counts_at_most n s = list_all (\<lambda>c. c \<le> n) (counts (sa_agent s))"


text \<open>
  The draws that a timestep consumes, and the order of draws in the words of the
  specification: walk draws first, then exploration and action draws (Bernoulli and
  uniform integer draws), then reward draws.
\<close>

definition is_action_draw :: "draw \<Rightarrow> bool" where
  "is_action_draw d =
     (case d of NormalDraw m s \<Rightarrow> False | BernoulliDraw p \<Rightarrow> True | UniformIntDraw a b \<Rightarrow> True)"

definition walk_action_reward_order :: "draw \<Rightarrow> draw \<Rightarrow> draw list \<Rightarrow> bool" where
  "walk_action_reward_order walk_draw reward_draw ds =
     list_all (\<lambda>d. d = reward_draw)
       (dropWhile is_action_draw (dropWhile (\<lambda>d. d = walk_draw) ds))"

definition timestep_draws :: "nat \<Rightarrow> sim \<Rightarrow> draw list" where
  "timestep_draws step s =
     (case step_body step s of
        Inl e \<Rightarrow> []
      | Inr s' \<Rightarrow> drop (length (drawn (gen s))) (drawn (gen s')))"

subsection \<open>Two runs\<close>

text \<open>
  Two generators are the same for a run that starts from them when they deliver the
  same variates from their cursors on and have recorded the same draws so far, as
  two generators constructed from the same seed do. Two states of \<open>run_exp\<close> are the
  same when their generators are and all other variables are equal.
\<close>

definition same_gen :: "rng \<Rightarrow> rng \<Rightarrow> bool" where
  "same_gen g1 g2 \<longleftrightarrow>
     (\<forall>i. tape g1 (cursor g1 + i) = tape g2 (cursor g2 + i)) \<and> drawn g1 = drawn g2"

definition same_draw :: "double \<times> rng \<Rightarrow> double \<times> rng \<Rightarrow> bool" where
  "same_draw p q \<longleftrightarrow> fst p = fst q \<and> same_gen (snd p) (snd q)"

definition same_sim :: "sim \<Rightarrow> sim \<Rightarrow> bool" where
  "same_sim s1 s2 \<longleftrightarrow>
     same_gen (gen s1) (gen s2)
   \<and> bandit s1 = bandit s2 \<and> sa_agent s1 = sa_agent s2 \<and> css_agent s1 = css_agent s2
   \<and> sa_rewards s1 = sa_rewards s2 \<and> css_rewards s1 = css_rewards s2
   \<and> sa_optimal s1 = sa_optimal s2 \<and> css_optimal s1 = css_optimal s2"

definition same_result :: "tables \<times> rng \<Rightarrow> tables \<times> rng \<Rightarrow> bool" where
  "same_result r1 r2 \<longleftrightarrow> fst r1 = fst r2 \<and> same_gen (snd r1) (snd r2)"

subsection \<open>An example generator\<close>

text \<open>
  A tape with period 15, the number of draws of a timestep on it: ten walk variates
  0, a Bernoulli variate 19/20 (the sample-average agent exploits), its reward
  variate 1/2, a Bernoulli variate 1/4 (the constant-step-size agent explores), the
  uniform variate 7/20 (action 3) and its reward variate 2.
\<close>

definition example_tape :: "nat \<Rightarrow> real" where
  "example_tape i =
     [0, 0, 0, 0, 0, 0, 0, 0, 0, 0, 19 / 20, 1 / 2, 1 / 4, 7 / 20, 2] ! (i mod 15)"

definition example_gen :: rng where
  "example_gen = \<lparr>tape = example_tape, cursor = 0, drawn = []\<rparr>"

section \<open>Properties\<close>

subsection \<open>The largest element and \<open>optimal_action\<close>\<close>

lemma max_scan_first_max:
  assumes "length pre = i" and "li < i" and "pre ! li = v"
    and "\<forall>j<i. pre ! j \<le> v" and "\<forall>j<li. pre ! j < v"
  shows "max_scan v li i xs < length (pre @ xs)
       \<and> (\<forall>j<length (pre @ xs). (pre @ xs) ! j \<le> (pre @ xs) ! max_scan v li i xs)
       \<and> (\<forall>j<max_scan v li i xs. (pre @ xs) ! j < (pre @ xs) ! max_scan v li i xs)"
  using assms
proof (induction xs arbitrary: pre i li v)
  case Nil
  then show ?case by auto
next
  case (Cons x xs)
  show ?case
  proof (cases "v < x")
    case True
    have "max_scan x i (Suc i) xs < length ((pre @ [x]) @ xs)
       \<and> (\<forall>j<length ((pre @ [x]) @ xs). ((pre @ [x]) @ xs) ! j \<le> ((pre @ [x]) @ xs) ! max_scan x i (Suc i) xs)
       \<and> (\<forall>j<max_scan x i (Suc i) xs. ((pre @ [x]) @ xs) ! j < ((pre @ [x]) @ xs) ! max_scan x i (Suc i) xs)"
    proof (rule Cons.IH)
      show "length (pre @ [x]) = Suc i" using Cons.prems by simp
      show "i < Suc i" by simp
      show "(pre @ [x]) ! i = x" using Cons.prems by (simp add: nth_append)
      show "\<forall>j<Suc i. (pre @ [x]) ! j \<le> x"
        using Cons.prems True by (auto simp: nth_append less_Suc_eq intro: order.trans less_imp_le)
      show "\<forall>j<i. (pre @ [x]) ! j < x"
        using Cons.prems True by (auto simp: nth_append intro: le_less_trans)
    qed
    with True show ?thesis by simp
  next
    case False
    have "max_scan v li (Suc i) xs < length ((pre @ [x]) @ xs)
       \<and> (\<forall>j<length ((pre @ [x]) @ xs). ((pre @ [x]) @ xs) ! j \<le> ((pre @ [x]) @ xs) ! max_scan v li (Suc i) xs)
       \<and> (\<forall>j<max_scan v li (Suc i) xs. ((pre @ [x]) @ xs) ! j < ((pre @ [x]) @ xs) ! max_scan v li (Suc i) xs)"
    proof (rule Cons.IH)
      show "length (pre @ [x]) = Suc i" using Cons.prems by simp
      show "li < Suc i" using Cons.prems by simp
      show "(pre @ [x]) ! li = v" using Cons.prems by (simp add: nth_append)
      show "\<forall>j<Suc i. (pre @ [x]) ! j \<le> v"
        using Cons.prems False by (auto simp: nth_append less_Suc_eq)
      show "\<forall>j<li. (pre @ [x]) ! j < v"
        using Cons.prems by (auto simp: nth_append)
    qed
    with False show ?thesis by simp
  qed
qed

lemma max_element_index_first_max:
  assumes "xs \<noteq> []"
  shows "max_element_index xs < length xs
       \<and> (\<forall>j<length xs. xs ! j \<le> xs ! max_element_index xs)
       \<and> (\<forall>j<max_element_index xs. xs ! j < xs ! max_element_index xs)"
proof -
  from assms obtain x rest where xs: "xs = x # rest" by (cases xs) auto
  have "max_scan x 0 1 rest < length ([x] @ rest)
       \<and> (\<forall>j<length ([x] @ rest). ([x] @ rest) ! j \<le> ([x] @ rest) ! max_scan x 0 1 rest)
       \<and> (\<forall>j<max_scan x 0 1 rest. ([x] @ rest) ! j < ([x] @ rest) ! max_scan x 0 1 rest)"
    by (rule max_scan_first_max) auto
  then show ?thesis by (simp add: xs max_element_index_def)
qed

lemma max_scan_replicate: "\<not> v < c \<Longrightarrow> max_scan v li i (replicate n c) = li"
  by (induction n arbitrary: i) auto

lemma max_element_index_replicate: "max_element_index (replicate n c) = 0"
  by (cases n) (simp_all add: max_element_index_def max_scan_replicate)

text \<open>
  Claim C5. \<open>optimal_action\<close> (the specification's \<open>best_action\<close>) returns an index of
  the true means at which the mean is largest, and every mean at a lower index is
  strictly smaller, so that of several largest means the first wins; immediately
  after \<open>reset\<close>, when all means are zero, it returns action 0.
\<close>

theorem optimal_action_first_max:
  "(q_true b \<noteq> [] \<longrightarrow>
      0 \<le> optimal_action b \<and> optimal_action b < int (length (q_true b))
    \<and> (\<forall>j<length (q_true b). q_true b ! j \<le> q_true b ! nat (optimal_action b))
    \<and> (\<forall>j<nat (optimal_action b). q_true b ! j < q_true b ! nat (optimal_action b)))
   \<and> optimal_action (bandit_reset b) = 0"
  using max_element_index_first_max [of "q_true b"]
  by (simp add: optimal_action_def bandit_reset_def max_element_index_replicate)

theorem optimal_action_first_max_witness:
  "q_true (Bandit\<lparr>q_true := [1, 3, 2, 3, 0, 0, 0, 0, 0, 0]\<rparr>) \<noteq> []
   \<and> optimal_action (Bandit\<lparr>q_true := [1, 3, 2, 3, 0, 0, 0, 0, 0, 0]\<rparr>) = 1
   \<and> optimal_action (bandit_reset (Bandit\<lparr>q_true := [1, 3, 2, 3, 0, 0, 0, 0, 0, 0]\<rparr>))
       = 0"
  using optimal_action_first_max [of "Bandit\<lparr>q_true := [1, 3, 2, 3, 0, 0, 0, 0, 0, 0]\<rparr>"]
  by (simp add: optimal_action_def max_element_index_def Bandit_def)

subsection \<open>Rounding to double precision\<close>

text \<open>
  The exponent that \<open>binade\<close> computes is the right one, and \<open>round_double\<close> rounds
  to nearest: the result is a multiple of the unit in the last place, \<open>2^(e-52)\<close>, and
  differs from its argument by at most half of that unit.
\<close>

lemma pow2_pos: "0 < pow2 e"
  by (simp add: pow2_def)

lemma pow2_Suc: "pow2 (e + 1) = 2 * pow2 e"
proof (cases "0 \<le> e")
  case True
  then show ?thesis by (simp add: pow2_def nat_add_distrib)
next
  case False
  then have "nat (- e) = Suc (nat (- (e + 1)))" by simp
  then show ?thesis using False by (simp add: pow2_def del: of_nat_Suc)
qed

lemma pow2_nat: "pow2 (int n) = 2 ^ n"
  by (simp add: pow2_def)

lemma pow2_neg: "pow2 (- e) = 1 / pow2 e"
  by (cases "e = 0") (auto simp: pow2_def)

lemma bit_length_bounds:
  "0 < n \<Longrightarrow> 1 \<le> bit_length n \<and> 2 ^ nat (bit_length n - 1) \<le> n \<and> n < 2 ^ nat (bit_length n)"
proof (induction n rule: bit_length.induct)
  case (1 n)
  show ?case
  proof (cases "n = 1")
    case True
    have "bit_length 1 = 1" by (simp add: bit_length.simps [of 1] bit_length.simps [of 0])
    then show ?thesis using True by simp
  next
    case False
    with "1.prems" have m: "0 < n div 2" by simp
    have n: "\<not> n \<le> 0" using "1.prems" by simp
    from "1.IH" [OF n m] have b: "1 \<le> bit_length (n div 2)"
      and lo: "2 ^ nat (bit_length (n div 2) - 1) \<le> n div 2"
      and hi: "n div 2 < 2 ^ nat (bit_length (n div 2))" by simp_all
    have bl: "bit_length n = 1 + bit_length (n div 2)"
      using n by (simp add: bit_length.simps [of n])
    have e: "nat (bit_length n - 1) = Suc (nat (bit_length (n div 2) - 1))"
      "nat (bit_length n) = Suc (nat (bit_length (n div 2)))"
      using b by (simp_all add: bl)
    have "2 * (n div 2) \<le> n" "n \<le> 2 * (n div 2) + 1" by simp_all
    then show ?thesis using lo hi b unfolding e by (simp add: bl)
  qed
qed

lemma binade_bounds:
  assumes "0 < y"
  shows "pow2 (binade y) \<le> y \<and> y < pow2 (binade y + 1)"
proof (cases "1 \<le> y")
  case True
  let ?n = "\<lfloor>y\<rfloor>"
  have n: "0 < ?n" using True by simp
  note b = bit_length_bounds [OF n]
  have e: "binade y = bit_length ?n - 1" using True by (simp add: binade_def)
  have e0: "0 \<le> bit_length ?n - 1" "0 \<le> bit_length ?n" using b by simp_all
  have "(2::real) ^ nat (bit_length ?n - 1) \<le> of_int ?n"
    using b by (metis of_int_le_iff of_int_numeral of_int_power)
  also have "\<dots> \<le> y" by simp
  finally have lo: "pow2 (binade y) \<le> y" using e0 by (simp add: e pow2_def)
  have "?n + 1 \<le> 2 ^ nat (bit_length ?n)" using b by simp
  then have "(of_int (?n + 1) :: real) \<le> 2 ^ nat (bit_length ?n)"
    by (metis of_int_le_iff of_int_numeral of_int_power)
  moreover have "y < of_int (?n + 1)" by linarith
  ultimately have "y < 2 ^ nat (bit_length ?n)" by (rule less_le_trans [rotated])
  then have hi: "y < pow2 (binade y + 1)" using e0 by (simp add: e pow2_def)
  from lo hi show ?thesis by simp
next
  case False
  then have y1: "y < 1" by simp
  let ?k = "\<lfloor>1 / y\<rfloor>"
  define b where "b = bit_length ?k - 1"
  have "1 \<le> 1 / y" using assms y1 by simp
  then have k: "0 < ?k" by simp
  note bl = bit_length_bounds [OF k]
  have b0: "0 \<le> b" and b1: "bit_length ?k = b + 1" using bl by (simp_all add: b_def)
  have "(2::real) ^ nat b \<le> of_int ?k"
    using bl unfolding b_def by (metis of_int_le_iff of_int_numeral of_int_power)
  also have "\<dots> \<le> 1 / y" by simp
  finally have "pow2 b \<le> 1 / y" using b0 by (simp add: pow2_def)
  then have up: "y * pow2 b \<le> 1" using assms by (simp add: field_simps)
  have "?k + 1 \<le> 2 ^ nat (bit_length ?k)" using bl by simp
  then have "(of_int (?k + 1) :: real) \<le> 2 ^ nat (bit_length ?k)"
    by (metis of_int_le_iff of_int_numeral of_int_power)
  moreover have "1 / y < of_int (?k + 1)" by linarith
  ultimately have "1 / y < 2 ^ nat (bit_length ?k)" by (rule less_le_trans [rotated])
  moreover have "pow2 (b + 1) = 2 ^ nat (bit_length ?k)" using b0 by (simp add: pow2_def b1)
  ultimately have "1 / y < pow2 (b + 1)" by simp
  then have "1 < y * pow2 (b + 1)" using assms by (simp add: field_simps)
  then have low: "1 < y * (2 * pow2 b)" by (simp add: pow2_Suc)
  have pb: "0 < pow2 b" by (rule pow2_pos)
  have inv: "pow2 (- b) = 1 / pow2 b" by (rule pow2_neg)
  have inv2: "pow2 (- b - 1) = 1 / (2 * pow2 b)"
  proof -
    have "pow2 (- b - 1 + 1) = 2 * pow2 (- b - 1)" by (rule pow2_Suc)
    then have "pow2 (- b) = 2 * pow2 (- b - 1)" by simp
    then show ?thesis using inv pb by (simp add: field_simps)
  qed
  show ?thesis
  proof (cases "y * pow2 b = 1")
    case True
    then have e: "binade y = - b" using y1 by (simp add: binade_def Let_def b_def)
    have y: "y = pow2 (- b)" using True pb by (simp add: inv field_simps)
    have "pow2 (- b + 1) = 2 * pow2 (- b)" by (rule pow2_Suc)
    then have "pow2 (- b) \<le> y \<and> y < pow2 (- b + 1)"
      using pow2_pos [of "- b"] by (simp only: y) simp
    then show ?thesis unfolding e .
  next
    case ne: False
    then have e: "binade y = - b - 1" using y1 by (simp add: binade_def Let_def b_def)
    have e1: "- b - 1 + 1 = - b" by simp
    have "y * pow2 b < 1" using up ne by simp
    then have hi: "y < pow2 (- b)" using pb by (simp add: inv field_simps)
    have lo: "pow2 (- b - 1) < y" using low pb by (simp add: inv2 field_simps)
    show ?thesis using hi lo unfolding e e1 by simp
  qed
qed

lemma round_half_even_near: "\<bar>of_int (round_half_even m) - m\<bar> \<le> 1 / 2"
proof -
  let ?f = "\<lfloor>m\<rfloor>"
  let ?d = "m - of_int ?f"
  have fl: "of_int ?f \<le> m" "m < of_int ?f + 1" by linarith+
  have lo: "\<bar>of_int ?f - m\<bar> \<le> 1 / 2" if "?d \<le> 1 / 2"
    using fl that by linarith
  have hi: "\<bar>of_int (?f + 1) - m\<bar> \<le> 1 / 2" if "1 / 2 \<le> ?d"
  proof -
    have "\<bar>(of_int ?f + 1) - m\<bar> \<le> 1 / 2" using fl that by linarith
    then show ?thesis by simp
  qed
  consider "?d < 1 / 2" | "1 / 2 < ?d" | "?d = 1 / 2" by linarith
  then show ?thesis
  proof cases
    case 1
    then have "round_half_even m = ?f" by (simp add: round_half_even_def Let_def)
    then show ?thesis using lo 1 by simp
  next
    case 2
    then have "round_half_even m = ?f + 1" by (simp add: round_half_even_def Let_def)
    then show ?thesis using hi 2 by simp
  next
    case 3
    then have "round_half_even m = ?f \<or> round_half_even m = ?f + 1"
      by (simp add: round_half_even_def Let_def)
    then show ?thesis using lo hi 3 by auto
  qed
qed

lemma round_double_near:
  "x \<noteq> 0 \<Longrightarrow> \<bar>round_double x - x\<bar> \<le> pow2 (binade \<bar>x\<bar> - 52) / 2"
proof -
  assume x: "x \<noteq> 0"
  let ?u = "pow2 (binade \<bar>x\<bar> - 52)"
  have u: "0 < ?u" by (rule pow2_pos)
  have "round_double x - x = (of_int (round_half_even (x / ?u)) - x / ?u) * ?u"
    using x u by (simp add: round_double_def Let_def field_simps)
  then have "\<bar>round_double x - x\<bar> = \<bar>of_int (round_half_even (x / ?u)) - x / ?u\<bar> * ?u"
    using u by (simp add: abs_mult)
  also have "\<dots> \<le> 1 / 2 * ?u"
    using round_half_even_near [of "x / ?u"] u by (intro mult_right_mono) simp_all
  finally show ?thesis by simp
qed

subsection \<open>The update rules\<close>

lemma bindE_Inr_iff: "bindE m f = Inr y \<longleftrightarrow> (\<exists>x. m = Inr x \<and> f x = Inr y)"
  by (cases m) (simp_all add: bindE_def)

lemma in_range_nat: "in_range i xs \<Longrightarrow> nat i < length xs"
  by (auto simp: in_range_def)

lemma sa_count_Inr:
  "sa_count a action = Inr a' \<longleftrightarrow>
     in_range action (counts a) \<and> counts a ! nat action \<noteq> INT_MAX
     \<and> a' = a\<lparr>counts := (counts a)[nat action := counts a ! nat action + 1]\<rparr>"
  by (auto simp: sa_count_def)

lemma sa_update_Inr:
  "sa_update a action reward = Inr a' \<longleftrightarrow>
     in_range action (Q a) \<and> in_range action (counts a) \<and> counts a ! nat action \<noteq> INT_MAX
     \<and> a' = a\<lparr>counts := (counts a)[nat action := counts a ! nat action + 1],
              Q := (Q a)[nat action := Q a ! nat action
                     + (reward - Q a ! nat action) / of_int (counts a ! nat action + 1)]\<rparr>"
  by (auto simp: sa_update_def bindE_Inr_iff sa_count_Inr sa_estimate_def in_range_def)

lemma css_update_Inr:
  "css_update a action reward = Inr a' \<longleftrightarrow>
     in_range action (Q a)
     \<and> a' = a\<lparr>Q := (Q a)[nat action := Q a ! nat action + alpha a * (reward - Q a ! nat action)]\<rparr>"
  by (auto simp: css_update_def)

lemma replicate_10: "replicate 10 x = [x, x, x, x, x, x, x, x, x, x]"
  by (simp add: eval_nat_numeral)

lemma round_double_0: "round_double 0 = 0"
  by (simp add: round_double_def)

lemma sa_update_b64_Inr:
  "sa_update_b64 a action reward = Inr a' \<longleftrightarrow>
     in_range action (Q a) \<and> in_range action (counts a) \<and> counts a ! nat action \<noteq> INT_MAX
     \<and> counts a ! nat action \<noteq> - 1
     \<and> a' = a\<lparr>counts := (counts a)[nat action := counts a ! nat action + 1],
              Q := (Q a)[nat action :=
                     round_double (Q a ! nat action
                       + round_double (round_double (reward - Q a ! nat action)
                           / of_int (counts a ! nat action + 1)))]\<rparr>"
  by (auto simp: sa_update_b64_def bindE_Inr_iff sa_count_Inr sa_estimate_b64_def in_range_def)

lemma sa_update_b64_equal_reward:
  assumes "sa_update_b64 a action r = Inr a'" and "round_double r = r"
    and "Q a ! nat action = r \<or> (Q a ! nat action = 0 \<and> counts a ! nat action = 0)"
  shows "Q a' ! nat action = r \<and> in_range action (Q a') \<and> in_range action (counts a')"
proof -
  from assms(1) have r: "in_range action (Q a)" "in_range action (counts a)"
    and a': "a' = a\<lparr>counts := (counts a)[nat action := counts a ! nat action + 1],
              Q := (Q a)[nat action :=
                     round_double (Q a ! nat action
                       + round_double (round_double (r - Q a ! nat action)
                           / of_int (counts a ! nat action + 1)))]\<rparr>"
    by (simp_all add: sa_update_b64_Inr)
  have q: "Q a' ! nat action =
      round_double (Q a ! nat action
        + round_double (round_double (r - Q a ! nat action) / of_int (counts a ! nat action + 1)))"
    using in_range_nat [OF r(1)] by (simp add: a')
  from assms(3) have "Q a' ! nat action = r"
  proof
    assume "Q a ! nat action = r"
    then show ?thesis by (simp add: q round_double_0 assms(2))
  next
    assume "Q a ! nat action = 0 \<and> counts a ! nat action = 0"
    then show ?thesis by (simp add: q assms(2))
  qed
  then show ?thesis using r by (simp add: a' in_range_def)
qed

lemma sa_updates_b64_equal_rewards:
  "sa_updates_b64 a (replicate n (action, r)) = Inr a' \<Longrightarrow> round_double r = r \<Longrightarrow> 0 < n \<Longrightarrow>
   Q a ! nat action = r \<or> (Q a ! nat action = 0 \<and> counts a ! nat action = 0) \<Longrightarrow>
   Q a' ! nat action = r"
proof (induction n arbitrary: a)
  case 0
  then show ?case by simp
next
  case (Suc n)
  from Suc.prems(1) obtain a1 where a1: "sa_update_b64 a action r = Inr a1"
    and rest: "sa_updates_b64 a1 (replicate n (action, r)) = Inr a'"
    by (auto simp: bindE_Inr_iff)
  from sa_update_b64_equal_reward [OF a1 Suc.prems(2,4)] have q: "Q a1 ! nat action = r" by simp
  show ?case
  proof (cases n)
    case 0
    with rest q show ?thesis by simp
  next
    case (Suc m)
    then show ?thesis using Suc.IH [OF rest Suc.prems(2)] q by simp
  qed
qed

text \<open>
  Claim C3, as amended. For an action in range, \<open>SampleAverageAgent::update\<close> first
  increments the action's count and then moves the action's estimate by the
  difference to the reward divided by the incremented count; in the program's
  arithmetic the subtraction, the division and the addition are each rounded to
  double precision. After one update from the initial zero state the estimate is
  the reward exactly, and after any number of updates with one and the same reward
  it is that reward, their mean, exactly. For rewards that differ the estimate need
  not be their mean: every update rounds.
\<close>

theorem sa_update_step:
  "(in_range action (Q a) \<and> in_range action (counts a) \<and> counts a ! nat action \<noteq> INT_MAX \<longrightarrow>
      sa_update a action reward =
        Inr (a\<lparr>counts := (counts a)[nat action := counts a ! nat action + 1],
               Q := (Q a)[nat action := Q a ! nat action
                      + (reward - Q a ! nat action) / of_int (counts a ! nat action + 1)]\<rparr>))
   \<and> (in_range action (Q a) \<and> in_range action (counts a) \<and> counts a ! nat action \<noteq> INT_MAX
        \<and> counts a ! nat action \<noteq> - 1 \<longrightarrow>
      sa_update_b64 a action reward =
        Inr (a\<lparr>counts := (counts a)[nat action := counts a ! nat action + 1],
               Q := (Q a)[nat action :=
                      round_double (Q a ! nat action
                        + round_double (round_double (reward - Q a ! nat action)
                            / of_int (counts a ! nat action + 1)))]\<rparr>))
   \<and> (in_range action (Q a) \<and> in_range action (counts a) \<and> counts a ! nat action = 0 \<longrightarrow>
      (\<exists>a1. sa_update a action reward = Inr a1 \<and> Q a1 ! nat action = reward))
   \<and> (in_range action (Q a) \<and> in_range action (counts a) \<and> counts a ! nat action = 0
        \<and> Q a ! nat action = 0 \<and> round_double reward = reward \<longrightarrow>
      (\<exists>a1. sa_update_b64 a action reward = Inr a1 \<and> Q a1 ! nat action = reward))
   \<and> (sa_updates_b64 a (replicate n (action, reward)) = Inr a' \<and> 0 < n
        \<and> counts a ! nat action = 0 \<and> Q a ! nat action = 0 \<and> round_double reward = reward \<longrightarrow>
      Q a' ! nat action = reward)"
proof (intro conjI impI)
  assume h: "in_range action (Q a) \<and> in_range action (counts a) \<and> counts a ! nat action \<noteq> INT_MAX"
  then show "sa_update a action reward =
        Inr (a\<lparr>counts := (counts a)[nat action := counts a ! nat action + 1],
               Q := (Q a)[nat action := Q a ! nat action
                      + (reward - Q a ! nat action) / of_int (counts a ! nat action + 1)]\<rparr>)"
    by (simp add: sa_update_Inr)
next
  assume h: "in_range action (Q a) \<and> in_range action (counts a)
    \<and> counts a ! nat action \<noteq> INT_MAX \<and> counts a ! nat action \<noteq> - 1"
  then show "sa_update_b64 a action reward =
        Inr (a\<lparr>counts := (counts a)[nat action := counts a ! nat action + 1],
               Q := (Q a)[nat action :=
                      round_double (Q a ! nat action
                        + round_double (round_double (reward - Q a ! nat action)
                            / of_int (counts a ! nat action + 1)))]\<rparr>)"
    by (simp add: sa_update_b64_Inr)
next
  assume h: "in_range action (Q a) \<and> in_range action (counts a) \<and> counts a ! nat action = 0"
  then have "nat action < length (Q a)" by (simp add: in_range_nat)
  with h show "\<exists>a1. sa_update a action reward = Inr a1 \<and> Q a1 ! nat action = reward"
    by (simp add: sa_update_Inr INT_MAX_def)
next
  assume h: "in_range action (Q a) \<and> in_range action (counts a) \<and> counts a ! nat action = 0
        \<and> Q a ! nat action = 0 \<and> round_double reward = reward"
  then obtain a1 where a1: "sa_update_b64 a action reward = Inr a1"
    by (simp add: sa_update_b64_Inr INT_MAX_def)
  from sa_update_b64_equal_reward [OF a1] h have "Q a1 ! nat action = reward" by simp
  with a1 show "\<exists>a1. sa_update_b64 a action reward = Inr a1 \<and> Q a1 ! nat action = reward"
    by blast
next
  assume "sa_updates_b64 a (replicate n (action, reward)) = Inr a' \<and> 0 < n
        \<and> counts a ! nat action = 0 \<and> Q a ! nat action = 0 \<and> round_double reward = reward"
  then show "Q a' ! nat action = reward"
    using sa_updates_b64_equal_rewards [of a n action reward a'] by simp
qed

theorem sa_update_step_witness:
  "in_range 3 (Q (SampleAverageAgent (1 / 10)))
   \<and> in_range 3 (counts (SampleAverageAgent (1 / 10)))
   \<and> counts (SampleAverageAgent (1 / 10)) ! nat 3 = 0
   \<and> counts (SampleAverageAgent (1 / 10)) ! nat 3 \<noteq> INT_MAX
   \<and> Q (SampleAverageAgent (1 / 10)) ! nat 3 = 0
   \<and> round_double (5 / 2) = 5 / 2 \<and> (0::nat) < 3
   \<and> (\<exists>a1. sa_update (SampleAverageAgent (1 / 10)) 3 (5 / 2) = Inr a1 \<and> Q a1 ! nat 3 = 5 / 2)
   \<and> (\<exists>a1. sa_update_b64 (SampleAverageAgent (1 / 10)) 3 (5 / 2) = Inr a1
          \<and> Q a1 ! nat 3 = 5 / 2)
   \<and> (\<exists>a'. sa_updates_b64 (SampleAverageAgent (1 / 10)) (replicate 3 (3, 5 / 2)) = Inr a'
          \<and> Q a' ! nat 3 = 5 / 2)"
proof -
  let ?a = "SampleAverageAgent (1 / 10)"
  have r: "in_range 3 (Q ?a)" "in_range 3 (counts ?a)" "counts ?a ! nat 3 = 0"
    "counts ?a ! nat 3 \<noteq> INT_MAX" "Q ?a ! nat 3 = 0"
    by (simp_all add: SampleAverageAgent_def in_range_def replicate_10 INT_MAX_def)
  have d: "round_double (5 / 2) = 5 / 2" by code_simp
  have "sa_updates_b64 ?a (replicate 3 (3, 5 / 2)) =
      Inr \<lparr>Q = [0, 0, 0, 5 / 2, 0, 0, 0, 0, 0, 0], epsilon = 1 / 10, bern = 9 / 10,
           counts = [0, 0, 0, 3, 0, 0, 0, 0, 0, 0]\<rparr>"
    by code_simp
  then obtain a' where a': "sa_updates_b64 ?a (replicate 3 (3, 5 / 2)) = Inr a'" by blast
  note t = sa_update_step [where action = 3 and a = ?a and reward = "5 / 2" and n = 3 and a' = a']
  have "\<exists>a1. sa_update ?a 3 (5 / 2) = Inr a1 \<and> Q a1 ! nat 3 = 5 / 2"
    using t r by blast
  moreover have "\<exists>a1. sa_update_b64 ?a 3 (5 / 2) = Inr a1 \<and> Q a1 ! nat 3 = 5 / 2"
    using t r d by blast
  moreover have "Q a' ! nat 3 = 5 / 2"
    using t r d a' by simp
  ultimately show ?thesis using r d a' by simp
qed

text \<open>
  The estimate after four updates of action 3 with the rewards 0, 1, 6 and 1, in
  double precision, is \<open>2 - 2^-52\<close> (printed 1.9999999999999998), while the mean of
  the four rewards is 2.
\<close>

theorem sa_update_running_mean_counterexample:
  "sa_updates_b64 (SampleAverageAgent (1 / 10)) [(3, 0), (3, 1), (3, 6), (3, 1)] =
     Inr \<lparr>Q = [0, 0, 0, 9007199254740991 / 4503599627370496, 0, 0, 0, 0, 0, 0],
          epsilon = 1 / 10, bern = 9 / 10,
          counts = [0, 0, 0, 4, 0, 0, 0, 0, 0, 0]\<rparr>
   \<and> sum_list (rewards_of 3 [(3, 0), (3, 1), (3, 6), (3, 1)])
       / of_nat (length (rewards_of 3 [(3, 0), (3, 1), (3, 6), (3, 1)])) = (2 :: double)
   \<and> (9007199254740991 / 4503599627370496 :: double) \<noteq> 2"
  by code_simp

text \<open>
  Claim C4. For an action in range and any step size, \<open>ConstantStepSizeAgent::update\<close>
  moves the action's estimate by \<open>alpha\<close> times the difference to the reward; applied
  to an estimate of zero it yields \<open>alpha * reward\<close>.
\<close>

theorem css_update_step:
  "(in_range action (Q a) \<longrightarrow>
      css_update a action reward =
        Inr (a\<lparr>Q := (Q a)[nat action :=
                   Q a ! nat action + alpha a * (reward - Q a ! nat action)]\<rparr>))
   \<and> (in_range action (Q a) \<and> Q a ! nat action = 0 \<longrightarrow>
      (\<exists>a'. css_update a action reward = Inr a' \<and> Q a' ! nat action = alpha a * reward))"
  by (auto simp: css_update_def dest: in_range_nat)

theorem css_update_step_witness:
  "in_range 3 (Q (ConstantStepSizeAgent (1 / 10) (1 / 10)))
   \<and> Q (ConstantStepSizeAgent (1 / 10) (1 / 10)) ! nat 3 = 0
   \<and> (\<exists>a'. css_update (ConstantStepSizeAgent (1 / 10) (1 / 10)) 3 2 = Inr a'
          \<and> Q a' ! nat 3 = 1 / 5)"
  using css_update_step [of 3 "ConstantStepSizeAgent (1 / 10) (1 / 10)" 2]
  by (simp add: ConstantStepSizeAgent_def in_range_def replicate_10)

text \<open>
  Claim C9. For an action in range, \<open>update\<close> of either agent succeeds and changes
  only the state at the action's index: the estimates at all other indices, the
  lengths, \<open>epsilon\<close>, the parameter of the Bernoulli distribution, the step size
  \<open>alpha\<close> of the constant-step-size agent and the counts of the sample-average agent
  at all other indices are as before.
\<close>

theorem update_frame:
  "(in_range action (Q a) \<and> in_range action (counts a) \<and> counts a ! nat action \<noteq> INT_MAX \<longrightarrow>
      (\<exists>a'. sa_update a action reward = Inr a'
          \<and> (\<forall>i. i \<noteq> nat action \<longrightarrow> Q a' ! i = Q a ! i \<and> counts a' ! i = counts a ! i)
          \<and> length (Q a') = length (Q a) \<and> length (counts a') = length (counts a)
          \<and> epsilon a' = epsilon a \<and> bern a' = bern a))
   \<and> (in_range action (Q c) \<longrightarrow>
      (\<exists>c'. css_update c action reward = Inr c'
          \<and> (\<forall>i. i \<noteq> nat action \<longrightarrow> Q c' ! i = Q c ! i)
          \<and> length (Q c') = length (Q c)
          \<and> epsilon c' = epsilon c \<and> bern c' = bern c \<and> alpha c' = alpha c))"
  by (simp add: sa_update_Inr css_update_Inr)

theorem update_frame_witness:
  "in_range 3 (Q (SampleAverageAgent (1 / 10)))
   \<and> in_range 3 (counts (SampleAverageAgent (1 / 10)))
   \<and> counts (SampleAverageAgent (1 / 10)) ! nat 3 \<noteq> INT_MAX
   \<and> in_range 3 (Q (ConstantStepSizeAgent (1 / 10) (1 / 10)))
   \<and> (\<exists>a'. sa_update (SampleAverageAgent (1 / 10)) 3 2 = Inr a'
          \<and> Q a' = [0, 0, 0, 2, 0, 0, 0, 0, 0, 0] \<and> counts a' = [0, 0, 0, 1, 0, 0, 0, 0, 0, 0]
          \<and> epsilon a' = 1 / 10 \<and> bern a' = 9 / 10)
   \<and> (\<exists>c'. css_update (ConstantStepSizeAgent (1 / 10) (1 / 10)) 3 2 = Inr c'
          \<and> Q c' = [0, 0, 0, 1 / 5, 0, 0, 0, 0, 0, 0]
          \<and> epsilon c' = 1 / 10 \<and> bern c' = 9 / 10 \<and> alpha c' = 1 / 10)"
  using update_frame [of 3 "SampleAverageAgent (1 / 10)" 2 "ConstantStepSizeAgent (1 / 10) (1 / 10)"]
  by (simp add: SampleAverageAgent_def ConstantStepSizeAgent_def in_range_def replicate_10
      INT_MAX_def sa_update_def sa_count_def sa_estimate_def bindE_def css_update_def)

subsection \<open>The visitation counts\<close>

lemma sa_reachable_counts_nonneg: "sa_reachable a \<Longrightarrow> \<forall>c\<in>set (counts a). 0 \<le> c"
proof (induction rule: sa_reachable.induct)
  case (sa_constructed eps)
  show ?case by (simp add: SampleAverageAgent_def)
next
  case (sa_updated a action reward a')
  have "set (counts a') \<subseteq> insert (counts a ! nat action + 1) (set (counts a))"
    using sa_updated.hyps(2) set_update_subset_insert [of "counts a" "nat action"]
    by (simp add: sa_update_Inr)
  moreover have "0 \<le> counts a ! nat action"
    using sa_updated.hyps(2) sa_updated.IH by (auto simp: sa_update_Inr dest: in_range_nat)
  ultimately show ?case using sa_updated.IH by auto
next
  case (sa_was_reset a)
  show ?case by (simp add: sa_reset_def)
qed

text \<open>
  Claim C10. In every state a sample-average agent can reach from its constructor
  by updates and resets, all counts are non-negative, and a reset sets all counts
  to zero. For an action in range, \<open>update\<close> is the estimate statement applied to
  the state that the increment returns: the count that the estimate statement
  divides by is the count after the increment, it is at least 1, and the divisor
  is not zero. Whenever \<open>update\<close> returns, the new estimate is the old one plus the
  difference to the reward divided by the action's count after the update, which is
  at least 1. So \<open>update\<close> never divides by zero.
\<close>

theorem sa_update_divisor_positive:
  "sa_reachable a \<Longrightarrow>
     (\<forall>c\<in>set (counts a). 0 \<le> c)
   \<and> (\<forall>c\<in>set (counts (sa_reset a)). c = 0)
   \<and> (\<forall>action reward.
         in_range action (Q a) \<and> in_range action (counts a) \<and> counts a ! nat action \<noteq> INT_MAX \<longrightarrow>
         (\<exists>a1 a'. sa_count a action = Inr a1 \<and> sa_estimate a1 action reward = Inr a'
             \<and> sa_update a action reward = Inr a'
             \<and> counts a1 ! nat action = counts a ! nat action + 1
             \<and> 1 \<le> counts a1 ! nat action
             \<and> (of_int (counts a1 ! nat action) :: double) \<noteq> 0
             \<and> Q a' ! nat action =
                 Q a1 ! nat action
                   + (reward - Q a1 ! nat action) / of_int (counts a1 ! nat action)))
   \<and> (\<forall>action reward a'. sa_update a action reward = Inr a' \<longrightarrow>
         1 \<le> counts a' ! nat action
       \<and> Q a' ! nat action =
           Q a ! nat action + (reward - Q a ! nat action) / of_int (counts a' ! nat action))"
proof (intro conjI allI impI)
  assume r: "sa_reachable a"
  then show nn: "\<forall>c\<in>set (counts a). 0 \<le> c" by (rule sa_reachable_counts_nonneg)
  show "\<forall>c\<in>set (counts (sa_reset a)). c = 0" by (simp add: sa_reset_def)
  {
    fix action reward
    assume h: "in_range action (Q a) \<and> in_range action (counts a)
      \<and> counts a ! nat action \<noteq> INT_MAX"
    let ?a1 = "a\<lparr>counts := (counts a)[nat action := counts a ! nat action + 1]\<rparr>"
    let ?a' = "?a1\<lparr>Q := (Q ?a1)[nat action :=
                  Q ?a1 ! nat action
                    + (reward - Q ?a1 ! nat action) / of_int (counts ?a1 ! nat action)]\<rparr>"
    have i: "nat action < length (counts a)" "nat action < length (Q a)"
      using h by (simp_all add: in_range_nat)
    have c: "sa_count a action = Inr ?a1" using h by (simp add: sa_count_def)
    have e: "sa_estimate ?a1 action reward = Inr ?a'"
      using h by (simp add: sa_estimate_def in_range_def)
    have u: "sa_update a action reward = Inr ?a'"
      by (simp add: sa_update_def bindE_def c e)
    have c1: "counts ?a1 ! nat action = counts a ! nat action + 1" using i by simp
    have "0 \<le> counts a ! nat action" using nn i by simp
    then have p: "1 \<le> counts ?a1 ! nat action"
      "(of_int (counts ?a1 ! nat action) :: double) \<noteq> 0" using c1 by simp_all
    have q: "Q ?a' ! nat action =
        Q ?a1 ! nat action + (reward - Q ?a1 ! nat action) / of_int (counts ?a1 ! nat action)"
      using i by simp
    from c e u c1 p q
    show "\<exists>a1 a'. sa_count a action = Inr a1 \<and> sa_estimate a1 action reward = Inr a'
             \<and> sa_update a action reward = Inr a'
             \<and> counts a1 ! nat action = counts a ! nat action + 1
             \<and> 1 \<le> counts a1 ! nat action
             \<and> (of_int (counts a1 ! nat action) :: double) \<noteq> 0
             \<and> Q a' ! nat action =
                 Q a1 ! nat action
                   + (reward - Q a1 ! nat action) / of_int (counts a1 ! nat action)"
      by blast
  }
  {
    fix action reward a'
    assume u: "sa_update a action reward = Inr a'"
    then have i: "nat action < length (counts a)" "nat action < length (Q a)"
      and a': "a' = a\<lparr>counts := (counts a)[nat action := counts a ! nat action + 1],
              Q := (Q a)[nat action := Q a ! nat action
                     + (reward - Q a ! nat action) / of_int (counts a ! nat action + 1)]\<rparr>"
      by (simp_all add: sa_update_Inr in_range_nat)
    have "0 \<le> counts a ! nat action" using nn i by simp
    then show "1 \<le> counts a' ! nat action" using i by (simp add: a')
    show "Q a' ! nat action =
        Q a ! nat action + (reward - Q a ! nat action) / of_int (counts a' ! nat action)"
      using i by (simp add: a')
  }
qed

theorem sa_update_divisor_positive_witness:
  "\<exists>a. sa_update (sa_reset (SampleAverageAgent (1 / 10))) 3 2 = Inr a
      \<and> sa_reachable a
      \<and> counts a = [0, 0, 0, 1, 0, 0, 0, 0, 0, 0]
      \<and> Q a = [0, 0, 0, 2, 0, 0, 0, 0, 0, 0]
      \<and> in_range 3 (Q a) \<and> in_range 3 (counts a) \<and> counts a ! nat 3 \<noteq> INT_MAX
      \<and> (\<exists>a1 a'. sa_count a 3 = Inr a1 \<and> sa_estimate a1 3 5 = Inr a'
            \<and> sa_update a 3 5 = Inr a' \<and> counts a1 ! nat 3 = 2 \<and> Q a' ! nat 3 = 7 / 2)
      \<and> counts (sa_reset a) = [0, 0, 0, 0, 0, 0, 0, 0, 0, 0]"
proof -
  let ?a0 = "sa_reset (SampleAverageAgent (1 / 10))"
  obtain a where a: "sa_update ?a0 3 2 = Inr a"
    by (simp add: SampleAverageAgent_def sa_reset_def agent_reset_def replicate_10
        sa_update_def sa_count_def sa_estimate_def bindE_def in_range_def INT_MAX_def)
  have r: "sa_reachable a"
    by (rule sa_updated [OF sa_was_reset [OF sa_constructed] a])
  have c: "counts a = [0, 0, 0, 1, 0, 0, 0, 0, 0, 0]" "Q a = [0, 0, 0, 2, 0, 0, 0, 0, 0, 0]"
    using a by (simp_all add: SampleAverageAgent_def sa_reset_def agent_reset_def replicate_10
        sa_update_Inr in_range_def INT_MAX_def)
  have h: "in_range 3 (Q a)" "in_range 3 (counts a)" "counts a ! nat 3 \<noteq> INT_MAX"
    by (simp_all add: c in_range_def INT_MAX_def)
  from sa_update_divisor_positive [OF r] h
  obtain a1 a' where s: "sa_count a 3 = Inr a1" "sa_estimate a1 3 5 = Inr a'"
    "sa_update a 3 5 = Inr a'" "counts a1 ! nat 3 = counts a ! nat 3 + 1"
    "Q a' ! nat 3 = Q a1 ! nat 3 + (5 - Q a1 ! nat 3) / of_int (counts a1 ! nat 3)"
    by blast
  have q1: "Q a1 = Q a" using s(1) by (auto simp: sa_count_Inr)
  have "counts a1 ! nat 3 = 2" using s(4) by (simp add: c)
  moreover from this have "Q a' ! nat 3 = 7 / 2" using s(5) by (simp add: q1 c)
  moreover have "counts (sa_reset a) = [0, 0, 0, 0, 0, 0, 0, 0, 0, 0]"
    by (simp add: sa_reset_def c)
  ultimately show ?thesis using a r c h s(1,2,3) by blast
qed

subsection \<open>\<open>choose_action\<close>\<close>

text \<open>
  Claim C1, as the code has it. The constructor gives the Bernoulli distribution the
  parameter \<open>1 - eps\<close>, and \<open>choose_action\<close> takes the exploration branch when the draw
  from that distribution is true: the exploration branch is taken with probability
  \<open>1 - eps\<close>, and the index of the largest estimate is returned with probability
  \<open>eps\<close>; the two agents of \<open>run_exp\<close>, constructed with \<open>eps = 1/10\<close>, explore with
  probability 9/10. With \<open>eps = 0\<close> the draw is always true and \<open>choose_action\<close>
  always explores: on a generator whose variates are all 3/4 it returns action 7,
  while the first largest estimate of the new agent is at index 0.
\<close>

theorem choose_action_explores_with_one_minus_epsilon:
  "bern (Agent eps) = 1 - eps
   \<and> bern (SampleAverageAgent eps) = 1 - eps
   \<and> bern (ConstantStepSizeAgent eps al) = 1 - eps
   \<and> bern (sa_agent (init_sim num_steps g0)) = 9 / 10
   \<and> bern (css_agent (init_sim num_steps g0)) = 9 / 10
   \<and> choose_action a g =
       (if frac (variate g) < bern a
        then sample_uniform_int 0 9 (consume (BernoulliDraw (bern a)) g)
        else (int (max_element_index (Q a)), consume (BernoulliDraw (bern a)) g))
   \<and> choose_action (Agent 0) g = sample_uniform_int 0 9 (consume (BernoulliDraw 1) g)
   \<and> fst (choose_action (Agent 0) \<lparr>tape = (\<lambda>i. 3 / 4), cursor = 0, drawn = []\<rparr>) = 7
   \<and> int (max_element_index (Q (Agent 0))) = 0"
  by (simp add: Agent_def SampleAverageAgent_def ConstantStepSizeAgent_def choose_action_def
      sample_bernoulli_def frac_lt_1 max_element_index_replicate sample_uniform_int_def
      variate_def consume_def init_sim_def)

subsection \<open>The generator, \<open>get_reward\<close> and the success of \<open>run_exp\<close>\<close>

lemma walk_length: "length (fst (walk d qs g)) = length qs"
  by (induction qs arbitrary: g) (simp_all add: sample_normal_def case_prod_beta)

lemma walk_gen:
  "snd (walk d qs g) =
     g\<lparr>cursor := cursor g + length qs,
       drawn := drawn g @ replicate (length qs) (NormalDraw (mean d) (stddev d))\<rparr>"
proof (induction qs arbitrary: g)
  case Nil
  show ?case by simp
next
  case (Cons q qs)
  have "snd (walk d (q # qs) g) = snd (walk d qs (consume (NormalDraw (mean d) (stddev d)) g))"
    by (simp add: sample_normal_def case_prod_beta)
  also have "\<dots> = g\<lparr>cursor := cursor g + length (q # qs),
       drawn := drawn g @ replicate (length (q # qs)) (NormalDraw (mean d) (stddev d))\<rparr>"
    by (simp add: Cons.IH consume_def replicate_app_Cons_same)
  finally show ?case .
qed

lemma random_walk_eq:
  "random_walk b g =
     (b\<lparr>q_true := fst (walk (walk_noise b) (q_true b) g)\<rparr>,
      g\<lparr>cursor := cursor g + length (q_true b),
        drawn := drawn g @ replicate (length (q_true b))
                   (NormalDraw (mean (walk_noise b)) (stddev (walk_noise b)))\<rparr>)"
  using walk_gen [of "walk_noise b" "q_true b" g]
  by (simp add: random_walk_def case_prod_beta)

lemma sample_uniform_int_range:
  assumes "a \<le> b"
  shows "a \<le> fst (sample_uniform_int a b g) \<and> fst (sample_uniform_int a b g) \<le> b"
proof -
  let ?u = "frac (variate g)"
  let ?n = "of_int (b - a + 1) :: real"
  have n: "0 < ?n" using assms by simp
  have u: "0 \<le> ?u" "?u < 1" by (simp_all add: frac_lt_1)
  have "0 \<le> ?u * ?n" using u n by simp
  then have lo: "0 \<le> \<lfloor>?u * ?n\<rfloor>" by simp
  have "?u * ?n < 1 * ?n" using u n by (intro mult_strict_right_mono) simp_all
  then have "?u * ?n < of_int (b - a + 1)" by simp
  then have "\<lfloor>?u * ?n\<rfloor> < b - a + 1" by (simp only: floor_less_iff)
  with lo show ?thesis by (simp add: sample_uniform_int_def)
qed

lemma max_element_index_less: "xs \<noteq> [] \<Longrightarrow> max_element_index xs < length xs"
  using max_element_index_first_max by blast

lemma choose_action_eq:
  "choose_action a g =
     (if frac (variate g) < bern a
      then (fst (sample_uniform_int 0 9 (consume (BernoulliDraw (bern a)) g)),
            g\<lparr>cursor := cursor g + 2,
              drawn := drawn g @ [BernoulliDraw (bern a), UniformIntDraw 0 9]\<rparr>)
      else (int (max_element_index (Q a)),
            g\<lparr>cursor := cursor g + 1, drawn := drawn g @ [BernoulliDraw (bern a)]\<rparr>))"
  by (simp add: choose_action_def sample_bernoulli_def sample_uniform_int_def consume_def)

lemma choose_action_range:
  assumes "length (Q a) = 10"
  shows "0 \<le> fst (choose_action a g) \<and> fst (choose_action a g) < 10"
proof (cases "frac (variate g) < bern a")
  case True
  then have "fst (choose_action a g) = fst (sample_uniform_int 0 9 (consume (BernoulliDraw (bern a)) g))"
    by (simp add: choose_action_eq)
  then show ?thesis
    using sample_uniform_int_range [of 0 9 "consume (BernoulliDraw (bern a)) g"] by simp
next
  case False
  have "Q a \<noteq> []" using assms by auto
  then have "max_element_index (Q a) < 10" using max_element_index_less [of "Q a"] assms by simp
  with False show ?thesis by (simp add: choose_action_eq)
qed

lemma get_reward_eq:
  "in_range action (q_true b) \<Longrightarrow>
   get_reward b action g =
     Inr (q_true b ! nat action + (mean (reward_noise b) + stddev (reward_noise b) * variate g),
          g\<lparr>cursor := cursor g + 1,
            drawn := drawn g @ [NormalDraw (mean (reward_noise b)) (stddev (reward_noise b))]\<rparr>)"
  by (simp add: get_reward_def sample_normal_def consume_def)

lemma step_body_InrD:
  assumes "step_body step s = Inr s'"
  shows "\<exists>b g0 sa_action g1 sa_reward g2 sa' css_action g3 css_reward g4 css'.
      random_walk (bandit s) (gen s) = (b, g0)
    \<and> choose_action (sa_agent s) g0 = (sa_action, g1)
    \<and> get_reward b sa_action g1 = Inr (sa_reward, g2)
    \<and> sa_update (sa_agent s) sa_action sa_reward = Inr sa'
    \<and> choose_action (css_agent s) g2 = (css_action, g3)
    \<and> get_reward b css_action g3 = Inr (css_reward, g4)
    \<and> css_update (css_agent s) css_action css_reward = Inr css'
    \<and> step < length (sa_rewards s) \<and> step < length (sa_optimal s)
    \<and> step < length (css_rewards s) \<and> step < length (css_optimal s)
    \<and> s' = \<lparr>bandit = b, sa_agent = sa', css_agent = css', gen = g4,
            sa_rewards = (sa_rewards s)[step := sa_rewards s ! step + sa_reward],
            css_rewards = (css_rewards s)[step := css_rewards s ! step + css_reward],
            sa_optimal = (sa_optimal s)[step := sa_optimal s ! step
                           + of_bool_double (sa_action = optimal_action b)],
            css_optimal = (css_optimal s)[step := css_optimal s ! step
                           + of_bool_double (css_action = optimal_action b)]\<rparr>"
proof -
  obtain b g0 where rw: "random_walk (bandit s) (gen s) = (b, g0)" by (cases "random_walk (bandit s) (gen s)")
  obtain sa_action g1 where c1: "choose_action (sa_agent s) g0 = (sa_action, g1)"
    by (cases "choose_action (sa_agent s) g0")
  from assms obtain sa_reward g2 where r1: "get_reward b sa_action g1 = Inr (sa_reward, g2)"
    by (cases "get_reward b sa_action g1") (auto simp: step_body_def rw c1 bindE_def)
  from assms obtain sa' where u1: "sa_update (sa_agent s) sa_action sa_reward = Inr sa'"
    by (cases "sa_update (sa_agent s) sa_action sa_reward") (auto simp: step_body_def rw c1 r1 bindE_def)
  from assms have l1: "step < length (sa_rewards s)"
    by (cases "step < length (sa_rewards s)") (auto simp: step_body_def rw c1 r1 u1 bindE_def add_at_def)
  from assms have l2: "step < length (sa_optimal s)"
    by (cases "step < length (sa_optimal s)") (auto simp: step_body_def rw c1 r1 u1 l1 bindE_def add_at_def)
  obtain css_action g3 where c2: "choose_action (css_agent s) g2 = (css_action, g3)"
    by (cases "choose_action (css_agent s) g2")
  from assms obtain css_reward g4 where r2: "get_reward b css_action g3 = Inr (css_reward, g4)"
    by (cases "get_reward b css_action g3") (auto simp: step_body_def rw c1 r1 u1 l1 l2 c2 bindE_def add_at_def)
  from assms obtain css' where u2: "css_update (css_agent s) css_action css_reward = Inr css'"
    by (cases "css_update (css_agent s) css_action css_reward")
      (auto simp: step_body_def rw c1 r1 u1 l1 l2 c2 r2 bindE_def add_at_def)
  from assms have l3: "step < length (css_rewards s)"
    by (cases "step < length (css_rewards s)")
      (auto simp: step_body_def rw c1 r1 u1 l1 l2 c2 r2 u2 bindE_def add_at_def)
  from assms have l4: "step < length (css_optimal s)"
    by (cases "step < length (css_optimal s)")
      (auto simp: step_body_def rw c1 r1 u1 l1 l2 l3 c2 r2 u2 bindE_def add_at_def)
  from assms have "s' = \<lparr>bandit = b, sa_agent = sa', css_agent = css', gen = g4,
            sa_rewards = (sa_rewards s)[step := sa_rewards s ! step + sa_reward],
            css_rewards = (css_rewards s)[step := css_rewards s ! step + css_reward],
            sa_optimal = (sa_optimal s)[step := sa_optimal s ! step
                           + of_bool_double (sa_action = optimal_action b)],
            css_optimal = (css_optimal s)[step := css_optimal s ! step
                           + of_bool_double (css_action = optimal_action b)]\<rparr>"
    by (simp add: step_body_def rw c1 r1 u1 l1 l2 l3 l4 c2 r2 u2 bindE_def add_at_def)
  with rw c1 r1 u1 c2 r2 u2 l1 l2 l3 l4 show ?thesis by blast
qed

lemma list_all_update: "list_all P xs \<Longrightarrow> P v \<Longrightarrow> list_all P (xs[i := v])"
  using set_update_subset_insert [of xs i v] by (auto simp: list_all_iff)

lemma step_body_ok:
  assumes ok: "sim_ok T s" and lt: "step < T" and cnt: "counts_at_most (int step) s"
    and T: "int T \<le> INT_MAX"
  shows "\<exists>s'. step_body step s = Inr s' \<and> sim_ok T s' \<and> counts_at_most (int (Suc step)) s'"
proof -
  obtain b g0 where rw: "random_walk (bandit s) (gen s) = (b, g0)"
    by (cases "random_walk (bandit s) (gen s)")
  have b: "b = (bandit s)\<lparr>q_true := fst (walk (walk_noise (bandit s)) (q_true (bandit s)) (gen s))\<rparr>"
    using rw by (simp add: random_walk_eq)
  have lb: "length (q_true b) = 10" using ok by (simp add: b walk_length sim_ok_def)
  obtain sa_action g1 where c1: "choose_action (sa_agent s) g0 = (sa_action, g1)"
    by (cases "choose_action (sa_agent s) g0")
  have "0 \<le> sa_action \<and> sa_action < 10"
    using choose_action_range [of "sa_agent s" g0] ok by (simp add: c1 sim_ok_def)
  then have ra: "in_range sa_action (q_true b)" "in_range sa_action (Q (sa_agent s))"
    "in_range sa_action (counts (sa_agent s))"
    using ok lb by (simp_all add: in_range_def sim_ok_def)
  obtain sa_reward g2 where r1: "get_reward b sa_action g1 = Inr (sa_reward, g2)"
    using get_reward_eq [OF ra(1)] by blast
  have le: "counts (sa_agent s) ! nat sa_action \<le> int step"
    using cnt in_range_nat [OF ra(3)] by (simp add: counts_at_most_def list_all_length)
  then have "counts (sa_agent s) ! nat sa_action \<noteq> INT_MAX" using lt T by simp
  then obtain sa' where u1: "sa_update (sa_agent s) sa_action sa_reward = Inr sa'"
    using ra by (simp add: sa_update_Inr)
  have sa': "length (Q sa') = 10" "length (counts sa') = 10" "bern sa' = 9 / 10"
    using u1 ok by (auto simp: sa_update_Inr sim_ok_def)
  have "counts sa' = (counts (sa_agent s))[nat sa_action := counts (sa_agent s) ! nat sa_action + 1]"
    using u1 by (auto simp: sa_update_Inr)
  moreover have "list_all (\<lambda>c. c \<le> int (Suc step)) (counts (sa_agent s))"
    using cnt by (auto simp: counts_at_most_def list_all_iff)
  ultimately have cnt': "list_all (\<lambda>c. c \<le> int (Suc step)) (counts sa')"
    using le by (simp add: list_all_update)
  obtain css_action g3 where c2: "choose_action (css_agent s) g2 = (css_action, g3)"
    by (cases "choose_action (css_agent s) g2")
  have "0 \<le> css_action \<and> css_action < 10"
    using choose_action_range [of "css_agent s" g2] ok by (simp add: c2 sim_ok_def)
  then have rc: "in_range css_action (q_true b)" "in_range css_action (Q (css_agent s))"
    using ok lb by (simp_all add: in_range_def sim_ok_def)
  obtain css_reward g4 where r2: "get_reward b css_action g3 = Inr (css_reward, g4)"
    using get_reward_eq [OF rc(1)] by blast
  obtain css' where u2: "css_update (css_agent s) css_action css_reward = Inr css'"
    using rc by (simp add: css_update_Inr)
  have css': "length (Q css') = 10" "bern css' = 9 / 10" "alpha css' = 1 / 10"
    using u2 ok by (auto simp: css_update_Inr sim_ok_def)
  have len: "step < length (sa_rewards s)" "step < length (sa_optimal s)"
    "step < length (css_rewards s)" "step < length (css_optimal s)"
    using ok lt by (simp_all add: sim_ok_def)
  let ?s' = "\<lparr>bandit = b, sa_agent = sa', css_agent = css', gen = g4,
            sa_rewards = (sa_rewards s)[step := sa_rewards s ! step + sa_reward],
            css_rewards = (css_rewards s)[step := css_rewards s ! step + css_reward],
            sa_optimal = (sa_optimal s)[step := sa_optimal s ! step
                           + of_bool_double (sa_action = optimal_action b)],
            css_optimal = (css_optimal s)[step := css_optimal s ! step
                           + of_bool_double (css_action = optimal_action b)]\<rparr>"
  have "step_body step s = Inr ?s'"
    by (simp add: step_body_def rw c1 r1 u1 c2 r2 u2 len bindE_def add_at_def)
  moreover have "sim_ok T ?s'"
    using ok lb sa' css' by (simp add: sim_ok_def b)
  moreover have "counts_at_most (int (Suc step)) ?s'"
    using cnt' by (simp add: counts_at_most_def)
  ultimately show ?thesis by blast
qed

lemma steps_loop_ok:
  "sim_ok T s \<Longrightarrow> step \<le> T \<Longrightarrow> counts_at_most (int step) s \<Longrightarrow> int T \<le> INT_MAX \<Longrightarrow>
   \<exists>s'. steps_loop T step s = Inr s' \<and> sim_ok T s'"
proof (induction T step s rule: steps_loop.induct)
  case (1 num_steps step s)
  show ?case
  proof (cases "step < num_steps")
    case True
    from step_body_ok [OF "1.prems"(1) True "1.prems"(3,4)]
    obtain s1 where s1: "step_body step s = Inr s1" "sim_ok num_steps s1"
      "counts_at_most (int (Suc step)) s1" by blast
    have "\<exists>s'. steps_loop num_steps (Suc step) s1 = Inr s' \<and> sim_ok num_steps s'"
      using "1.IH" [OF True s1(1) s1(2) _ s1(3) "1.prems"(4)] True by simp
    then show ?thesis using True s1(1) by (simp add: steps_loop.simps [of num_steps step s])
  next
    case False
    then show ?thesis using "1.prems"(1) by (simp add: steps_loop.simps [of num_steps step s])
  qed
qed

lemma run_body_ok:
  assumes "sim_ok T s" and "int T \<le> INT_MAX"
  shows "\<exists>s'. run_body T s = Inr s' \<and> sim_ok T s'"
proof -
  let ?s = "s\<lparr>bandit := bandit_reset (bandit s), sa_agent := sa_reset (sa_agent s),
              css_agent := agent_reset (css_agent s)\<rparr>"
  have "sim_ok T ?s"
    using assms(1) by (simp add: sim_ok_def bandit_reset_def sa_reset_def agent_reset_def)
  moreover have "counts_at_most (int 0) ?s"
    by (simp add: counts_at_most_def sa_reset_def list_all_iff)
  ultimately show ?thesis
    unfolding run_body_def using assms(2) by (intro steps_loop_ok) simp_all
qed

lemma runs_loop_ok:
  "sim_ok T s \<Longrightarrow> int T \<le> INT_MAX \<Longrightarrow> \<exists>s'. runs_loop R T run s = Inr s' \<and> sim_ok T s'"
proof (induction R T run s rule: runs_loop.induct)
  case (1 num_runs num_steps run s)
  show ?case
  proof (cases "run < num_runs")
    case True
    from run_body_ok [OF "1.prems"] obtain s1 where s1: "run_body num_steps s = Inr s1"
      "sim_ok num_steps s1" by blast
    have "\<exists>s'. runs_loop num_runs num_steps (Suc run) s1 = Inr s' \<and> sim_ok num_steps s'"
      by (rule "1.IH" [OF True s1(1) s1(2) "1.prems"(2)])
    then show ?thesis using True s1(1)
      by (simp add: runs_loop.simps [of num_runs num_steps run s])
  next
    case False
    then show ?thesis using "1.prems"(1)
      by (simp add: runs_loop.simps [of num_runs num_steps run s])
  qed
qed

lemma init_sim_ok: "sim_ok T (init_sim T g)"
  by (simp add: sim_ok_def init_sim_def Bandit_def SampleAverageAgent_def
      ConstantStepSizeAgent_def)

lemma run_exp_with_ok:
  assumes "int T \<le> INT_MAX"
  shows "\<exists>out g'. run_exp_with R T g = Inr (out, g')"
proof -
  from runs_loop_ok [OF init_sim_ok assms] obtain s where
    "runs_loop R T 0 (init_sim T g) = Inr s" by blast
  then show ?thesis by (simp add: run_exp_with_def bindE_def)
qed

text \<open>
  Claim C8. For an action in range, \<open>get_reward\<close> (the specification's
  \<open>sample_reward\<close>) succeeds and returns the true mean at the action plus a draw from
  its reward-noise distribution, which is the normal distribution with mean 0 and
  standard deviation 1 in every state of \<open>run_exp\<close>. \<open>choose_action\<close> of an agent
  with 10 estimates returns an action between 0 and 9 on both branches. Hence the
  body of the inner loop succeeds in every state of \<open>run_exp\<close> and keeps it one, and
  \<open>run_exp\<close> as a whole returns its tables from every generator: no access out of
  range and no overflow of a count is reachable.
\<close>

theorem get_reward_in_bounds:
  "(in_range action (q_true b) \<longrightarrow>
      get_reward b action g =
        Inr (q_true b ! nat action + fst (sample_normal (reward_noise b) g),
             snd (sample_normal (reward_noise b) g)))
   \<and> (in_range action (q_true b) \<and> reward_noise b = normal_distribution 0 1 \<longrightarrow>
      (\<exists>g'. get_reward b action g = Inr (q_true b ! nat action + variate g, g')))
   \<and> (length (Q a) = 10 \<longrightarrow> 0 \<le> fst (choose_action a g) \<and> fst (choose_action a g) < 10)
   \<and> (sim_ok T s \<and> step < T \<and> counts_at_most (int step) s \<and> int T \<le> INT_MAX \<longrightarrow>
      (\<exists>s'. step_body step s = Inr s' \<and> sim_ok T s' \<and> counts_at_most (int (Suc step)) s'))
   \<and> (\<exists>out g'. run_exp g = Inr (out, g'))"
proof (intro conjI impI)
  show "\<exists>out g'. run_exp g = Inr (out, g')"
    unfolding run_exp_def by (rule run_exp_with_ok) (simp add: INT_MAX_def)
next
  assume "length (Q a) = 10"
  then show "0 \<le> fst (choose_action a g)" "fst (choose_action a g) < 10"
    using choose_action_range [of a g] by simp_all
next
  assume "sim_ok T s \<and> step < T \<and> counts_at_most (int step) s \<and> int T \<le> INT_MAX"
  then show "\<exists>s'. step_body step s = Inr s' \<and> sim_ok T s' \<and> counts_at_most (int (Suc step)) s'"
    using step_body_ok by blast
qed (simp_all add: get_reward_def case_prod_beta sample_normal_def)

lemma example_step_ok:
  "sim_ok 1 (init_sim 1 example_gen)" "counts_at_most (int 0) (init_sim 1 example_gen)"
  "int 1 \<le> INT_MAX"
proof -
  show "sim_ok 1 (init_sim 1 example_gen)" by (rule init_sim_ok)
  show "counts_at_most (int 0) (init_sim 1 example_gen)"
    by (simp add: counts_at_most_def init_sim_def SampleAverageAgent_def list_all_iff)
  show "int 1 \<le> INT_MAX" by (simp add: INT_MAX_def)
qed

theorem get_reward_in_bounds_witness:
  "in_range 3 (q_true Bandit) \<and> reward_noise Bandit = normal_distribution 0 1
   \<and> length (Q (Agent (1 / 10))) = 10
   \<and> sim_ok 1 (init_sim 1 example_gen) \<and> (0::nat) < 1
   \<and> counts_at_most (int 0) (init_sim 1 example_gen) \<and> int 1 \<le> INT_MAX
   \<and> (\<exists>g'. get_reward Bandit 3 example_gen = Inr (0, g'))
   \<and> fst (choose_action (Agent (1 / 10)) example_gen) = 0
   \<and> (\<exists>s'. step_body 0 (init_sim 1 example_gen) = Inr s')"
proof -
  have h: "in_range 3 (q_true Bandit)" "reward_noise Bandit = normal_distribution 0 1"
    "length (Q (Agent (1 / 10))) = 10"
    by (simp_all add: Bandit_def Agent_def in_range_def)
  have v: "variate example_gen = 0" "q_true Bandit ! nat 3 = 0"
    by (simp_all add: variate_def example_gen_def example_tape_def Bandit_def replicate_10)
  have c: "fst (choose_action (Agent (1 / 10)) example_gen) = 0"
    by (simp add: choose_action_eq variate_def example_gen_def example_tape_def Agent_def
        sample_uniform_int_def consume_def)
  note t = get_reward_in_bounds [where action = 3 and b = Bandit and g = example_gen
      and a = "Agent (1 / 10)" and T = 1 and s = "init_sim 1 example_gen" and step = 0]
  from t h have "\<exists>g'. get_reward Bandit 3 example_gen
      = Inr (q_true Bandit ! nat 3 + variate example_gen, g')" by blast
  then have "\<exists>g'. get_reward Bandit 3 example_gen = Inr (0, g')" unfolding v by simp
  moreover from t example_step_ok have "\<exists>s'. step_body 0 (init_sim 1 example_gen) = Inr s'"
    by blast
  ultimately show ?thesis using h c example_step_ok by simp
qed

subsection \<open>The order of the draws\<close>

lemma get_reward_InrD:
  assumes "get_reward b action g = Inr (r, g')"
  shows "in_range action (q_true b)
       \<and> r = q_true b ! nat action + (mean (reward_noise b) + stddev (reward_noise b) * variate g)
       \<and> g' = g\<lparr>cursor := cursor g + 1,
               drawn := drawn g @ [NormalDraw (mean (reward_noise b)) (stddev (reward_noise b))]\<rparr>"
proof (cases "in_range action (q_true b)")
  case True
  then show ?thesis using assms by (simp add: get_reward_eq)
next
  case False
  then show ?thesis using assms by (simp add: get_reward_def)
qed

text \<open>
  Claim C6, as amended. \<open>choose_action\<close> consumes one Bernoulli draw, followed by one
  uniform integer draw when that draw is true (the exploration branch) and by no
  draw when it is false. A timestep that does not fail consumes, in this order: one
  walk draw for every true mean; then the sample-average agent's Bernoulli draw, its
  uniform integer draw if it explores, and its reward draw; then the
  constant-step-size agent's Bernoulli draw, its uniform integer draw if it
  explores, and its reward draw. Every draw reads the next variate of the tape.
\<close>

theorem draws_in_order:
  "drawn (snd (choose_action a g)) =
     drawn g @ BernoulliDraw (bern a)
       # (if fst (sample_bernoulli (bern a) g) then [UniformIntDraw 0 9] else [])
   \<and> cursor (snd (choose_action a g)) =
       cursor g + (if fst (sample_bernoulli (bern a) g) then 2 else 1)
   \<and> (step_body step s = Inr s' \<longrightarrow>
       (let g = gen s;
            k = length (q_true (bandit s));
            walk_draw = NormalDraw (mean (walk_noise (bandit s))) (stddev (walk_noise (bandit s)));
            reward_draw =
              NormalDraw (mean (reward_noise (bandit s))) (stddev (reward_noise (bandit s)));
            e1 = (frac (tape g (cursor g + k)) < bern (sa_agent s));
            n1 = (if e1 then 2 else 1);
            e2 = (frac (tape g (cursor g + k + n1 + 1)) < bern (css_agent s));
            n2 = (if e2 then 2 else 1)
        in drawn (gen s') =
             drawn g @ replicate k walk_draw
               @ BernoulliDraw (bern (sa_agent s)) # (if e1 then [UniformIntDraw 0 9] else [])
               @ [reward_draw]
               @ BernoulliDraw (bern (css_agent s)) # (if e2 then [UniformIntDraw 0 9] else [])
               @ [reward_draw]
         \<and> cursor (gen s') = cursor g + k + n1 + 1 + n2 + 1
         \<and> tape (gen s') = tape g))"
proof (intro conjI impI)
  show "drawn (snd (choose_action a g)) =
     drawn g @ BernoulliDraw (bern a)
       # (if fst (sample_bernoulli (bern a) g) then [UniformIntDraw 0 9] else [])"
    by (simp add: choose_action_eq sample_bernoulli_def)
  show "cursor (snd (choose_action a g)) =
       cursor g + (if fst (sample_bernoulli (bern a) g) then 2 else 1)"
    by (simp add: choose_action_eq sample_bernoulli_def)
next
  assume "step_body step s = Inr s'"
  from step_body_InrD [OF this] obtain b g0 sa_action g1 sa_reward g2 sa' css_action g3
      css_reward g4 css' where
    rw: "random_walk (bandit s) (gen s) = (b, g0)" and
    c1: "choose_action (sa_agent s) g0 = (sa_action, g1)" and
    r1: "get_reward b sa_action g1 = Inr (sa_reward, g2)" and
    c2: "choose_action (css_agent s) g2 = (css_action, g3)" and
    r2: "get_reward b css_action g3 = Inr (css_reward, g4)" and
    g': "gen s' = g4"
    by auto
  let ?g = "gen s"
  let ?k = "length (q_true (bandit s))"
  let ?wd = "NormalDraw (mean (walk_noise (bandit s))) (stddev (walk_noise (bandit s)))"
  let ?rd = "NormalDraw (mean (reward_noise (bandit s))) (stddev (reward_noise (bandit s)))"
  let ?e1 = "frac (tape ?g (cursor ?g + ?k)) < bern (sa_agent s)"
  let ?n1 = "if ?e1 then 2 else 1 :: nat"
  let ?x1 = "if ?e1 then [UniformIntDraw 0 9] else []"
  let ?e2 = "frac (tape ?g (cursor ?g + ?k + ?n1 + 1)) < bern (css_agent s)"
  let ?n2 = "if ?e2 then 2 else 1 :: nat"
  let ?x2 = "if ?e2 then [UniformIntDraw 0 9] else []"
  have b: "reward_noise b = reward_noise (bandit s)"
    using rw by (auto simp: random_walk_eq)
  have g0: "g0 = ?g\<lparr>cursor := cursor ?g + ?k, drawn := drawn ?g @ replicate ?k ?wd\<rparr>"
    using rw by (auto simp: random_walk_eq)
  have g1: "g1 = ?g\<lparr>cursor := cursor ?g + ?k + ?n1,
      drawn := drawn ?g @ replicate ?k ?wd @ BernoulliDraw (bern (sa_agent s)) # ?x1\<rparr>"
    using c1 by (simp add: choose_action_eq g0 variate_def split: if_splits)
  have g2: "g2 = ?g\<lparr>cursor := cursor ?g + ?k + ?n1 + 1,
      drawn := drawn ?g @ replicate ?k ?wd @ BernoulliDraw (bern (sa_agent s)) # ?x1 @ [?rd]\<rparr>"
    using get_reward_InrD [OF r1] by (simp add: g1 b)
  have g3: "g3 = ?g\<lparr>cursor := cursor ?g + ?k + ?n1 + 1 + ?n2,
      drawn := drawn ?g @ replicate ?k ?wd @ BernoulliDraw (bern (sa_agent s)) # ?x1 @ [?rd]
                 @ BernoulliDraw (bern (css_agent s)) # ?x2\<rparr>"
    using c2 by (simp add: choose_action_eq g2 variate_def split: if_splits)
  have g4: "g4 = ?g\<lparr>cursor := cursor ?g + ?k + ?n1 + 1 + ?n2 + 1,
      drawn := drawn ?g @ replicate ?k ?wd @ BernoulliDraw (bern (sa_agent s)) # ?x1 @ [?rd]
                 @ BernoulliDraw (bern (css_agent s)) # ?x2 @ [?rd]\<rparr>"
    using get_reward_InrD [OF r2] by (simp add: g3 b)
  show "let g = gen s;
            k = length (q_true (bandit s));
            walk_draw = NormalDraw (mean (walk_noise (bandit s))) (stddev (walk_noise (bandit s)));
            reward_draw =
              NormalDraw (mean (reward_noise (bandit s))) (stddev (reward_noise (bandit s)));
            e1 = (frac (tape g (cursor g + k)) < bern (sa_agent s));
            n1 = (if e1 then 2 else 1);
            e2 = (frac (tape g (cursor g + k + n1 + 1)) < bern (css_agent s));
            n2 = (if e2 then 2 else 1)
        in drawn (gen s') =
             drawn g @ replicate k walk_draw
               @ BernoulliDraw (bern (sa_agent s)) # (if e1 then [UniformIntDraw 0 9] else [])
               @ [reward_draw]
               @ BernoulliDraw (bern (css_agent s)) # (if e2 then [UniformIntDraw 0 9] else [])
               @ [reward_draw]
         \<and> cursor (gen s') = cursor g + k + n1 + 1 + n2 + 1
         \<and> tape (gen s') = tape g"
    unfolding Let_def g' g4 by simp
qed

theorem draws_in_order_witness:
  "\<exists>s'. step_body 0 (init_sim 1 example_gen) = Inr s'
      \<and> drawn (gen s') =
          replicate 10 (NormalDraw 0 (1 / 100))
            @ [BernoulliDraw (9 / 10), NormalDraw 0 1,
               BernoulliDraw (9 / 10), UniformIntDraw 0 9, NormalDraw 0 1]
      \<and> cursor (gen s') = 15"
proof -
  obtain s' where s': "step_body 0 (init_sim 1 example_gen) = Inr s'"
    using step_body_ok [OF example_step_ok(1) _ example_step_ok(2,3)] by auto
  have t: "example_tape 10 = 19 / 20" "example_tape 12 = 1 / 4"
    by (simp_all add: example_tape_def)
  have f: "frac (19 / 20 :: real) = 19 / 20" "frac (1 / 4 :: real) = 1 / 4"
    by (simp_all add: frac_eq)
  from draws_in_order [where step = 0 and s = "init_sim 1 example_gen" and s' = s'
      and a = "Agent 0" and g = example_gen] s'
  have "drawn (gen s') =
          replicate 10 (NormalDraw 0 (1 / 100))
            @ [BernoulliDraw (9 / 10), NormalDraw 0 1,
               BernoulliDraw (9 / 10), UniformIntDraw 0 9, NormalDraw 0 1]
      \<and> cursor (gen s') = 15"
    by (simp add: init_sim_def example_gen_def Bandit_def SampleAverageAgent_def
        ConstantStepSizeAgent_def Let_def t f)
  with s' show ?thesis by blast
qed

text \<open>
  The order as the specification words it, walk draws, then exploration and action
  draws, then reward draws, does not hold of a timestep: on the example generator
  the reward draw of the sample-average agent, the twelfth draw of the timestep,
  comes before the Bernoulli and uniform integer draws of the constant-step-size
  agent.
\<close>

theorem draws_in_order_counterexample:
  "timestep_draws 0 (init_sim 1 example_gen) =
     [NormalDraw 0 (1 / 100), NormalDraw 0 (1 / 100), NormalDraw 0 (1 / 100),
      NormalDraw 0 (1 / 100), NormalDraw 0 (1 / 100), NormalDraw 0 (1 / 100),
      NormalDraw 0 (1 / 100), NormalDraw 0 (1 / 100), NormalDraw 0 (1 / 100),
      NormalDraw 0 (1 / 100),
      BernoulliDraw (9 / 10), NormalDraw 0 1,
      BernoulliDraw (9 / 10), UniformIntDraw 0 9, NormalDraw 0 1]
   \<and> \<not> walk_action_reward_order (NormalDraw 0 (1 / 100)) (NormalDraw 0 1)
         (timestep_draws 0 (init_sim 1 example_gen))"
  by code_simp

subsection \<open>The accumulators and the output tables\<close>

















subsection \<open>Two runs from the same generator\<close>

lemma same_gen_variate: "same_gen g1 g2 \<Longrightarrow> variate g1 = variate g2"
proof -
  assume "same_gen g1 g2"
  then have "tape g1 (cursor g1 + 0) = tape g2 (cursor g2 + 0)"
    unfolding same_gen_def by blast
  then show ?thesis by (simp add: variate_def)
qed

lemma same_gen_consume: "same_gen g1 g2 \<Longrightarrow> same_gen (consume d g1) (consume d g2)"
proof -
  assume a: "same_gen g1 g2"
  have "tape g1 (Suc (cursor g1) + i) = tape g2 (Suc (cursor g2) + i)" for i
  proof -
    from a have "tape g1 (cursor g1 + Suc i) = tape g2 (cursor g2 + Suc i)"
      unfolding same_gen_def by blast
    then show ?thesis by simp
  qed
  then show ?thesis using a by (simp add: same_gen_def consume_def)
qed

lemma sample_normal_same:
  "same_gen g1 g2 \<Longrightarrow>
   fst (sample_normal d g1) = fst (sample_normal d g2)
   \<and> same_gen (snd (sample_normal d g1)) (snd (sample_normal d g2))"
  by (simp add: sample_normal_def same_gen_variate same_gen_consume)

lemma walk_same:
  "same_gen g1 g2 \<Longrightarrow>
   fst (walk d qs g1) = fst (walk d qs g2) \<and> same_gen (snd (walk d qs g1)) (snd (walk d qs g2))"
proof (induction qs arbitrary: g1 g2)
  case Nil
  then show ?case by simp
next
  case (Cons q qs)
  note n = sample_normal_same [OF Cons.prems, of d]
  from Cons.IH [of "snd (sample_normal d g1)" "snd (sample_normal d g2)"] n
  show ?case by (simp add: case_prod_beta)
qed

lemma random_walk_same:
  "same_gen g1 g2 \<Longrightarrow>
   fst (random_walk b g1) = fst (random_walk b g2)
   \<and> same_gen (snd (random_walk b g1)) (snd (random_walk b g2))"
  using walk_same [of g1 g2 "walk_noise b" "q_true b"]
  by (simp add: random_walk_def case_prod_beta)

lemma choose_action_same:
  "same_gen g1 g2 \<Longrightarrow>
   fst (choose_action a g1) = fst (choose_action a g2)
   \<and> same_gen (snd (choose_action a g1)) (snd (choose_action a g2))"
proof -
  assume a: "same_gen g1 g2"
  let ?d = "BernoulliDraw (bern a)"
  note c = same_gen_consume [OF a, of ?d]
  have "variate g1 = variate g2" "variate (consume ?d g1) = variate (consume ?d g2)"
    "same_gen (consume (UniformIntDraw 0 9) (consume ?d g1))
       (consume (UniformIntDraw 0 9) (consume ?d g2))"
    using a c by (simp_all add: same_gen_variate same_gen_consume)
  then show ?thesis
    using c by (simp add: choose_action_def sample_bernoulli_def sample_uniform_int_def)
qed

lemma get_reward_same:
  "same_gen g1 g2 \<Longrightarrow> rel_sum (=) same_draw (get_reward b action g1) (get_reward b action g2)"
  using sample_normal_same [of g1 g2 "reward_noise b"]
  by (simp add: get_reward_def case_prod_beta same_draw_def)

lemma bindE_rel:
  assumes "rel_sum (=) A m1 m2" and "\<And>x y. A x y \<Longrightarrow> rel_sum (=) B (f x) (h y)"
  shows "rel_sum (=) B (bindE m1 f) (bindE m2 h)"
  using assms by (cases m1; cases m2) (simp_all add: bindE_def)

lemma bindE_rel_same:
  assumes "\<And>x. rel_sum (=) B (f x) (h x)"
  shows "rel_sum (=) B (bindE m f) (bindE m h)"
  using assms by (cases m) (simp_all add: bindE_def)

lemma step_body_same:
  assumes "same_sim s1 s2"
  shows "rel_sum (=) same_sim (step_body step s1) (step_body step s2)"
proof -
  from assms have f: "bandit s2 = bandit s1" "sa_agent s2 = sa_agent s1"
    "css_agent s2 = css_agent s1" "sa_rewards s2 = sa_rewards s1"
    "css_rewards s2 = css_rewards s1" "sa_optimal s2 = sa_optimal s1"
    "css_optimal s2 = css_optimal s1" and g: "same_gen (gen s1) (gen s2)"
    by (simp_all add: same_sim_def)
  let ?b = "fst (random_walk (bandit s1) (gen s1))"
  let ?g0 = "snd (random_walk (bandit s1) (gen s1))"
  let ?h0 = "snd (random_walk (bandit s1) (gen s2))"
  have b: "fst (random_walk (bandit s1) (gen s2)) = ?b" and g0: "same_gen ?g0 ?h0"
    using random_walk_same [OF g, of "bandit s1"] by simp_all
  let ?a1 = "fst (choose_action (sa_agent s1) ?g0)"
  let ?g1 = "snd (choose_action (sa_agent s1) ?g0)"
  let ?h1 = "snd (choose_action (sa_agent s1) ?h0)"
  have a1: "fst (choose_action (sa_agent s1) ?h0) = ?a1" and g1: "same_gen ?g1 ?h1"
    using choose_action_same [OF g0, of "sa_agent s1"] by simp_all
  have r1: "rel_sum (=) same_draw (get_reward ?b ?a1 ?g1) (get_reward ?b ?a1 ?h1)"
    by (rule get_reward_same [OF g1])
  have tail: "rel_sum (=) same_sim
      (bindE (get_reward ?b (fst (choose_action (css_agent s1) (snd p)))
                (snd (choose_action (css_agent s1) (snd p))))
        (\<lambda>r. bindE (css_update (css_agent s1) (fst (choose_action (css_agent s1) (snd p))) (fst r))
          (\<lambda>css'. bindE (add_at (css_rewards s1) step (fst r))
            (\<lambda>css_rewards'. bindE (add_at (css_optimal s1) step
                 (of_bool_double (fst (choose_action (css_agent s1) (snd p)) = optimal_action ?b)))
              (\<lambda>css_optimal'. Inr \<lparr>bandit = ?b, sa_agent = sa', css_agent = css', gen = snd r,
                  sa_rewards = x, css_rewards = css_rewards',
                  sa_optimal = y, css_optimal = css_optimal'\<rparr>)))))
      (bindE (get_reward ?b (fst (choose_action (css_agent s1) (snd q)))
                (snd (choose_action (css_agent s1) (snd q))))
        (\<lambda>r. bindE (css_update (css_agent s1) (fst (choose_action (css_agent s1) (snd q))) (fst r))
          (\<lambda>css'. bindE (add_at (css_rewards s1) step (fst r))
            (\<lambda>css_rewards'. bindE (add_at (css_optimal s1) step
                 (of_bool_double (fst (choose_action (css_agent s1) (snd q)) = optimal_action ?b)))
              (\<lambda>css_optimal'. Inr \<lparr>bandit = ?b, sa_agent = sa', css_agent = css', gen = snd r,
                  sa_rewards = x, css_rewards = css_rewards',
                  sa_optimal = y, css_optimal = css_optimal'\<rparr>)))))"
    if pq: "same_draw p q" for p q sa' x y
  proof -
    from pq have g2: "same_gen (snd p) (snd q)" by (simp add: same_draw_def)
    have a2: "fst (choose_action (css_agent s1) (snd q)) = fst (choose_action (css_agent s1) (snd p))"
      and g3: "same_gen (snd (choose_action (css_agent s1) (snd p)))
                 (snd (choose_action (css_agent s1) (snd q)))"
      using choose_action_same [OF g2, of "css_agent s1"] by simp_all
    show ?thesis
      unfolding a2
    proof (rule bindE_rel [OF get_reward_same [OF g3]])
      fix r r' :: "double \<times> rng"
      assume rr: "same_draw r r'"
      then have e: "fst r' = fst r" and g4: "same_gen (snd r) (snd r')"
        by (simp_all add: same_draw_def)
      show "rel_sum (=) same_sim
        (bindE (css_update (css_agent s1) (fst (choose_action (css_agent s1) (snd p))) (fst r))
          (\<lambda>css'. bindE (add_at (css_rewards s1) step (fst r))
            (\<lambda>css_rewards'. bindE (add_at (css_optimal s1) step
                 (of_bool_double (fst (choose_action (css_agent s1) (snd p)) = optimal_action ?b)))
              (\<lambda>css_optimal'. Inr \<lparr>bandit = ?b, sa_agent = sa', css_agent = css', gen = snd r,
                  sa_rewards = x, css_rewards = css_rewards',
                  sa_optimal = y, css_optimal = css_optimal'\<rparr>))))
        (bindE (css_update (css_agent s1) (fst (choose_action (css_agent s1) (snd p))) (fst r'))
          (\<lambda>css'. bindE (add_at (css_rewards s1) step (fst r'))
            (\<lambda>css_rewards'. bindE (add_at (css_optimal s1) step
                 (of_bool_double (fst (choose_action (css_agent s1) (snd p)) = optimal_action ?b)))
              (\<lambda>css_optimal'. Inr \<lparr>bandit = ?b, sa_agent = sa', css_agent = css', gen = snd r',
                  sa_rewards = x, css_rewards = css_rewards',
                  sa_optimal = y, css_optimal = css_optimal'\<rparr>))))"
        unfolding e
        by (intro bindE_rel_same) (simp add: same_sim_def g4)
    qed
  qed
  show ?thesis
    unfolding step_body_def f case_prod_beta b a1
  proof (rule bindE_rel [OF r1])
    fix p q :: "double \<times> rng"
    assume pq: "same_draw p q"
    then have e: "fst q = fst p" by (simp add: same_draw_def)
    show "rel_sum (=) same_sim
       (bindE (sa_update (sa_agent s1) ?a1 (fst p))
         (\<lambda>sa'. bindE (add_at (sa_rewards s1) step (fst p))
           (\<lambda>sa_rewards'. bindE (add_at (sa_optimal s1) step
                (of_bool_double (?a1 = optimal_action ?b)))
             (\<lambda>sa_optimal'.
                bindE (get_reward ?b (fst (choose_action (css_agent s1) (snd p)))
                         (snd (choose_action (css_agent s1) (snd p))))
                  (\<lambda>r. bindE (css_update (css_agent s1)
                                 (fst (choose_action (css_agent s1) (snd p))) (fst r))
                    (\<lambda>css'. bindE (add_at (css_rewards s1) step (fst r))
                      (\<lambda>css_rewards'. bindE (add_at (css_optimal s1) step
                           (of_bool_double (fst (choose_action (css_agent s1) (snd p))
                              = optimal_action ?b)))
                        (\<lambda>css_optimal'. Inr \<lparr>bandit = ?b, sa_agent = sa', css_agent = css',
                            gen = snd r, sa_rewards = sa_rewards', css_rewards = css_rewards',
                            sa_optimal = sa_optimal', css_optimal = css_optimal'\<rparr>))))))))
       (bindE (sa_update (sa_agent s1) ?a1 (fst q))
         (\<lambda>sa'. bindE (add_at (sa_rewards s1) step (fst q))
           (\<lambda>sa_rewards'. bindE (add_at (sa_optimal s1) step
                (of_bool_double (?a1 = optimal_action ?b)))
             (\<lambda>sa_optimal'.
                bindE (get_reward ?b (fst (choose_action (css_agent s1) (snd q)))
                         (snd (choose_action (css_agent s1) (snd q))))
                  (\<lambda>r. bindE (css_update (css_agent s1)
                                 (fst (choose_action (css_agent s1) (snd q))) (fst r))
                    (\<lambda>css'. bindE (add_at (css_rewards s1) step (fst r))
                      (\<lambda>css_rewards'. bindE (add_at (css_optimal s1) step
                           (of_bool_double (fst (choose_action (css_agent s1) (snd q))
                              = optimal_action ?b)))
                        (\<lambda>css_optimal'. Inr \<lparr>bandit = ?b, sa_agent = sa', css_agent = css',
                            gen = snd r, sa_rewards = sa_rewards', css_rewards = css_rewards',
                            sa_optimal = sa_optimal', css_optimal = css_optimal'\<rparr>))))))))"
      unfolding e
      by (intro bindE_rel_same) (rule tail [OF pq])
  qed
qed

lemma steps_loop_same:
  "same_sim s1 s2 \<Longrightarrow> rel_sum (=) same_sim (steps_loop T i s1) (steps_loop T i s2)"
proof (induction T i s1 arbitrary: s2 rule: steps_loop.induct)
  case (1 num_steps step s)
  show ?case
  proof (cases "step < num_steps")
    case True
    note r = step_body_same [OF "1.prems", of step]
    show ?thesis
    proof (cases "step_body step s")
      case (Inl e)
      with r have "step_body step s2 = Inl e" by (cases "step_body step s2") simp_all
      with Inl True show ?thesis
        by (simp add: steps_loop.simps [of num_steps step s] steps_loop.simps [of num_steps step s2])
    next
      case (Inr s')
      with r obtain s2' where s2': "step_body step s2 = Inr s2'" and rel: "same_sim s' s2'"
        by (cases "step_body step s2") simp_all
      from "1.IH" [OF True Inr rel] Inr s2' True show ?thesis
        by (simp add: steps_loop.simps [of num_steps step s] steps_loop.simps [of num_steps step s2])
    qed
  next
    case False
    then show ?thesis using "1.prems"
      by (simp add: steps_loop.simps [of num_steps step s] steps_loop.simps [of num_steps step s2])
  qed
qed

lemma run_body_same:
  "same_sim s1 s2 \<Longrightarrow> rel_sum (=) same_sim (run_body T s1) (run_body T s2)"
  unfolding run_body_def by (rule steps_loop_same) (simp add: same_sim_def)

lemma runs_loop_same:
  "same_sim s1 s2 \<Longrightarrow> rel_sum (=) same_sim (runs_loop R T r s1) (runs_loop R T r s2)"
proof (induction R T r s1 arbitrary: s2 rule: runs_loop.induct)
  case (1 num_runs num_steps run s)
  show ?case
  proof (cases "run < num_runs")
    case True
    note r = run_body_same [OF "1.prems", of num_steps]
    show ?thesis
    proof (cases "run_body num_steps s")
      case (Inl e)
      with r have "run_body num_steps s2 = Inl e" by (cases "run_body num_steps s2") simp_all
      with Inl True show ?thesis
        by (simp add: runs_loop.simps [of num_runs num_steps run s]
            runs_loop.simps [of num_runs num_steps run s2])
    next
      case (Inr s')
      with r obtain s2' where s2': "run_body num_steps s2 = Inr s2'" and rel: "same_sim s' s2'"
        by (cases "run_body num_steps s2") simp_all
      from "1.IH" [OF True Inr rel] Inr s2' True show ?thesis
        by (simp add: runs_loop.simps [of num_runs num_steps run s]
            runs_loop.simps [of num_runs num_steps run s2])
    qed
  next
    case False
    then show ?thesis using "1.prems"
      by (simp add: runs_loop.simps [of num_runs num_steps run s]
          runs_loop.simps [of num_runs num_steps run s2])
  qed
qed

lemma run_exp_with_same:
  assumes "same_gen g1 g2"
  shows "rel_sum (=) same_result (run_exp_with R T g1) (run_exp_with R T g2)"
  unfolding run_exp_with_def
proof (rule bindE_rel)
  show "rel_sum (=) same_sim (runs_loop R T 0 (init_sim T g1)) (runs_loop R T 0 (init_sim T g2))"
    using assms by (intro runs_loop_same) (simp add: same_sim_def init_sim_def)
next
  fix x y assume "same_sim x y"
  then show "rel_sum (=) same_result (Inr (write_tables T (normalise R x), gen x))
     (Inr (write_tables T (normalise R y), gen y))"
    by (simp add: same_result_def same_sim_def write_tables_def normalise_def)
qed

text \<open>
  Claim C2. Two runs of the experiment that start from the same generator (the same
  variates to come, the same draws recorded) both fail with the same error or both
  return, with the same output tables and with generators that are again the same:
  they have recorded the same draws in the same order. For the \<open>run_exp\<close> of the
  program, with 2000 repetitions of 10000 steps, both runs return.
\<close>

theorem run_exp_deterministic:
  assumes "same_gen g1 g2"
  shows "rel_sum (=) same_result (run_exp_with R T g1) (run_exp_with R T g2)
       \<and> (\<exists>out h1 h2. run_exp g1 = Inr (out, h1) \<and> run_exp g2 = Inr (out, h2)
             \<and> drawn h1 = drawn h2 \<and> same_gen h1 h2)"
proof
  show "rel_sum (=) same_result (run_exp_with R T g1) (run_exp_with R T g2)"
    by (rule run_exp_with_same [OF assms])
  have ok: "int 10000 \<le> INT_MAX" by (simp add: INT_MAX_def)
  from run_exp_with_ok [OF ok] obtain out h1 where 1: "run_exp g1 = Inr (out, h1)"
    unfolding run_exp_def by blast
  from run_exp_with_same [OF assms, of 2000 10000] 1
  obtain r2 where 2: "run_exp g2 = Inr r2" and rel: "same_result (out, h1) r2"
    unfolding run_exp_def by (cases "run_exp_with 2000 10000 g2") simp_all
  then have "run_exp g2 = Inr (out, snd r2)" "same_gen h1 (snd r2)"
    by (simp_all add: same_result_def)
  with 1 show "\<exists>out h1 h2. run_exp g1 = Inr (out, h1) \<and> run_exp g2 = Inr (out, h2)
             \<and> drawn h1 = drawn h2 \<and> same_gen h1 h2"
    by (auto simp: same_gen_def)
qed

lemma example_tape_period: "example_tape (15 + i) = example_tape i"
  by (simp add: example_tape_def)

theorem run_exp_deterministic_witness:
  "same_gen example_gen (example_gen\<lparr>cursor := 15\<rparr>)
   \<and> (\<exists>out h1 h2. run_exp example_gen = Inr (out, h1)
         \<and> run_exp (example_gen\<lparr>cursor := 15\<rparr>) = Inr (out, h2) \<and> drawn h1 = drawn h2)"
proof -
  have s: "same_gen example_gen (example_gen\<lparr>cursor := 15\<rparr>)"
    by (simp add: same_gen_def example_gen_def example_tape_period)
  from run_exp_deterministic [OF s] show ?thesis using s by blast
qed

end
